theory Spec2Isabelle
  imports Main "HOL-Library.Word"
begin

unbundle bit_operations_syntax

section \<open>remregs.h: constants and data\<close>

type_synonym uint8_t = "8 word"
type_synonym uint16_t = "16 word"

definition ROP_READ_8 :: uint8_t where "ROP_READ_8 = 0"
definition ROP_READ_16 :: uint8_t where "ROP_READ_16 = 1"
definition ROP_READ_32 :: uint8_t where "ROP_READ_32 = 2"
definition ROP_READ_MB :: uint8_t where "ROP_READ_MB = 3"
definition ROP_WRITE_8 :: uint8_t where "ROP_WRITE_8 = 4"
definition ROP_WRITE_16 :: uint8_t where "ROP_WRITE_16 = 5"
definition ROP_WRITE_32 :: uint8_t where "ROP_WRITE_32 = 6"
definition ROP_WRITE_MB :: uint8_t where "ROP_WRITE_MB = 7"

definition MAX_MB_SIZE :: nat where "MAX_MB_SIZE = 29"
definition MAX_REG_CALLBACKS :: nat where "MAX_REG_CALLBACKS = 16"

lemmas rop_defs =
  ROP_READ_8_def ROP_READ_16_def ROP_READ_32_def ROP_READ_MB_def
  ROP_WRITE_8_def ROP_WRITE_16_def ROP_WRITE_32_def ROP_WRITE_MB_def

text \<open>
  \<^verbatim>\<open>RegisterData\<close> is a union whose widest member is \<^verbatim>\<open>bytes[MAX_MB_SIZE + 1]\<close>. The model
  keeps the raw bytes: \<^verbatim>\<open>byte\<close> and \<^verbatim>\<open>multibyte.size\<close> are byte 0, and \<^verbatim>\<open>multibyte.data[i]\<close>
  is byte \<open>i + 1\<close>.
\<close>

type_synonym RegisterData = "uint8_t list"

definition multibyte_size :: "RegisterData \<Rightarrow> uint8_t" where
  "multibyte_size d = d ! 0"

text \<open>
  A \<^verbatim>\<open>register_callback_t\<close> is a function pointer. The model keeps the pointer as an address
  (\<open>NULL\<close> is 0), so that \<^verbatim>\<open>del_callback\<close> can compare pointers as the source does; what the
  function at an address does is given by a table \<open>prog\<close>. A callback receives the operation, the
  address as \<^verbatim>\<open>uint8_t\<close> and the payload, and may change the payload and the application's own
  state \<open>'w\<close> (pins, motors, timers). It does not touch the register bank itself.
\<close>

type_synonym register_callback_t = nat

definition NULL :: register_callback_t where "NULL = 0"

type_synonym 'w callback_fn =
  "uint8_t \<Rightarrow> uint8_t \<Rightarrow> RegisterData \<Rightarrow> 'w \<Rightarrow> bool \<times> RegisterData \<times> 'w"

type_synonym 'w program = "register_callback_t \<Rightarrow> 'w callback_fn"

text \<open>
  The serial port. Each element of \<open>rx\<close> is the outcome of one blocking one-byte read:
  \<open>Some b\<close> when byte \<open>b\<close> arrives within the timeout, \<open>None\<close> when the wait times out; on
  the empty list nothing arrives any more. \<open>tx\<close> holds the bytes written, oldest first.
\<close>

record HardwareSerial =
  rx :: "uint8_t option list"
  tx :: "uint8_t list"
  read_timeout_ms :: nat

definition available :: "HardwareSerial \<Rightarrow> bool" where
  "available p = (rx p \<noteq> [])"

text \<open>
  One entry of the trace of callback invocations: the slot, the function pointer found there,
  the operation and address passed, and the value the callback returned.
\<close>

datatype call = Call (slot: nat) (callee: register_callback_t)
  (passed_operation: uint8_t) (passed_address: uint8_t) (handled: bool)

text \<open>
  The fields of \<^verbatim>\<open>class RegisterBank\<close>, followed by what the model adds: \<open>overrun\<close> records
  that a store or a load outside the 30 bytes of \<open>regdata2\<close> was reached, \<open>calls\<close> is the trace
  of callback invocations and \<open>world\<close> the application state the callbacks act on.
\<close>

record 'w RegisterBank =
  port :: HardwareSerial
  sync_state :: uint8_t
  callbacks :: "register_callback_t list"
  regdata2 :: RegisterData
  timeout :: bool
  overrun :: bool
  calls :: "call list"
  world :: 'w

section \<open>remregs.cpp\<close>

definition SYNC_NONE :: uint8_t where "SYNC_NONE = 0"
definition SYNC_OK :: uint8_t where "SYNC_OK = 1"
definition SYNC_CHECKSUM :: uint8_t where "SYNC_CHECKSUM = 2"

definition ACK :: uint8_t where "ACK = 6"
definition NAK :: uint8_t where "NAK = 15"

definition port_write :: "uint8_t \<Rightarrow> 'w RegisterBank \<Rightarrow> 'w RegisterBank" where
  "port_write b s = s\<lparr>port := (port s)\<lparr>tx := tx (port s) @ [b]\<rparr>\<rparr>"

text \<open>The loop of \<^verbatim>\<open>desync\<close>: \<open>n\<close> more bytes \<open>0xff\<close>.\<close>

primrec desync_burst :: "nat \<Rightarrow> 'w RegisterBank \<Rightarrow> 'w RegisterBank" where
  "desync_burst 0 s = s"
| "desync_burst (Suc n) s = desync_burst n (port_write 0xff s)"

definition desync :: "bool \<Rightarrow> 'w RegisterBank \<Rightarrow> 'w RegisterBank" where
  "desync force s =
     (let s1 = (if force \<or> sync_state s \<noteq> SYNC_NONE
                then desync_burst (MAX_MB_SIZE + 5) s else s)
      in s1\<lparr>sync_state := SYNC_NONE\<rparr>)"

text \<open>
  The constructor. \<open>regdata2\<close> is not initialised by the source; the bank of the demo sketch is a
  global object, whose storage is zeroed before the constructor runs.
\<close>

definition RegisterBank_new :: "HardwareSerial \<Rightarrow> 'w \<Rightarrow> 'w RegisterBank" where
  "RegisterBank_new s w =
     desync True
       \<lparr>port = s\<lparr>read_timeout_ms := 5000\<rparr>, sync_state = SYNC_NONE,
        callbacks = replicate MAX_REG_CALLBACKS NULL,
        regdata2 = replicate (MAX_MB_SIZE + 1) 0,
        timeout = False, overrun = False, calls = [], world = w\<rparr>"

definition read_byte :: "'w RegisterBank \<Rightarrow> uint8_t \<times> 'w RegisterBank" where
  "read_byte s0 =
     (let s = s0\<lparr>timeout := False\<rparr>
      in case rx (port s) of
           Some result # rest \<Rightarrow> (result, s\<lparr>port := (port s)\<lparr>rx := rest\<rparr>\<rparr>)
         | None # rest \<Rightarrow> (0xff, s\<lparr>port := (port s)\<lparr>rx := rest\<rparr>, timeout := True\<rparr>)
         | [] \<Rightarrow> (0xff, s\<lparr>timeout := True\<rparr>))"

text \<open>
  A store to \<^verbatim>\<open>regdata2.bytes[k]\<close>. The source has no check of \<open>k\<close>. A store past the union is
  undefined behaviour in C++: what it overwrites depends on the layout of the object (where
  nothing is padded, the member \<^verbatim>\<open>timeout\<close> lies right behind \<^verbatim>\<open>regdata2\<close>). The model gives no
  account of such a store: \<open>store_byte\<close> has no result there, and the invocation of
  \<^verbatim>\<open>event_handler\<close> that reaches it ends on the spot with \<open>overrun\<close> set. Of a run that ends so,
  nothing more is stated than that it does.
\<close>

definition store_byte :: "nat \<Rightarrow> uint8_t \<Rightarrow> 'w RegisterBank \<Rightarrow> 'w RegisterBank option" where
  "store_byte k v s =
     (if k < MAX_MB_SIZE + 1 then Some (s\<lparr>regdata2 := (regdata2 s)[k := v]\<rparr>)
      else None)"

text \<open>
  A load from \<^verbatim>\<open>regdata2.bytes[k]\<close>, in the loop that sends the reply. Out of range the byte it
  yields is unspecified, and \<open>overrun\<close> is set.
\<close>

definition load_byte :: "nat \<Rightarrow> 'w RegisterBank \<Rightarrow> uint8_t \<times> 'w RegisterBank" where
  "load_byte k s =
     (if k < MAX_MB_SIZE + 1 then (regdata2 s ! k, s)
      else (undefined, s\<lparr>overrun := True\<rparr>))"

subsection \<open>Callback registry\<close>

text \<open>The call \<^verbatim>\<open>callbacks[i](operation, address, &regdata2)\<close>.\<close>

definition invoke ::
  "'w program \<Rightarrow> nat \<Rightarrow> uint8_t \<Rightarrow> uint8_t \<Rightarrow> 'w RegisterBank \<Rightarrow> bool \<times> 'w RegisterBank" where
  "invoke prog i operation address s =
     (case prog (callbacks s ! i) operation address (regdata2 s) (world s) of
        (r, d, w) \<Rightarrow>
          (r, s\<lparr>regdata2 := d, world := w,
                calls := calls s @ [Call i (callbacks s ! i) operation address r]\<rparr>))"

text \<open>The loops over the slots take the list of indices still to visit.\<close>

fun call_all_loop ::
  "'w program \<Rightarrow> uint8_t \<Rightarrow> uint8_t \<Rightarrow> nat list \<Rightarrow> 'w RegisterBank \<Rightarrow> 'w RegisterBank" where
  "call_all_loop prog operation address [] s = s"
| "call_all_loop prog operation address (i # is) s =
     call_all_loop prog operation address is
       (if callbacks s ! i \<noteq> NULL then snd (invoke prog i operation address s) else s)"

definition callbacks_call_all ::
  "'w program \<Rightarrow> uint8_t \<Rightarrow> uint8_t \<Rightarrow> 'w RegisterBank \<Rightarrow> 'w RegisterBank" where
  "callbacks_call_all prog operation address s =
     call_all_loop prog operation address [0..<MAX_REG_CALLBACKS] s"

fun call_one_loop ::
  "'w program \<Rightarrow> uint8_t \<Rightarrow> uint8_t \<Rightarrow> nat list \<Rightarrow> 'w RegisterBank \<Rightarrow> bool \<times> 'w RegisterBank" where
  "call_one_loop prog operation address [] s = (False, s)"
| "call_one_loop prog operation address (i # is) s =
     (if callbacks s ! i \<noteq> NULL then
        (case invoke prog i operation address s of
           (r, s') \<Rightarrow> if r then (True, s') else call_one_loop prog operation address is s')
      else call_one_loop prog operation address is s)"

definition callbacks_call_one ::
  "'w program \<Rightarrow> uint8_t \<Rightarrow> uint8_t \<Rightarrow> 'w RegisterBank \<Rightarrow> bool \<times> 'w RegisterBank" where
  "callbacks_call_one prog operation address s =
     call_one_loop prog operation address [0..<MAX_REG_CALLBACKS] s"

text \<open>\<^verbatim>\<open>add_callback\<close> and \<^verbatim>\<open>del_callback\<close>: the first slot that matches is changed, then \<^verbatim>\<open>break\<close>.\<close>

fun add_loop :: "register_callback_t \<Rightarrow> nat list \<Rightarrow> register_callback_t list \<Rightarrow> register_callback_t list" where
  "add_loop addr [] cbs = cbs"
| "add_loop addr (i # is) cbs =
     (if cbs ! i = NULL then cbs[i := addr] else add_loop addr is cbs)"

definition add_callback :: "register_callback_t \<Rightarrow> 'w RegisterBank \<Rightarrow> 'w RegisterBank" where
  "add_callback addr s = s\<lparr>callbacks := add_loop addr [0..<MAX_REG_CALLBACKS] (callbacks s)\<rparr>"

fun del_loop :: "register_callback_t \<Rightarrow> nat list \<Rightarrow> register_callback_t list \<Rightarrow> register_callback_t list" where
  "del_loop addr [] cbs = cbs"
| "del_loop addr (i # is) cbs =
     (if cbs ! i = addr then cbs[i := NULL] else del_loop addr is cbs)"

definition del_callback :: "register_callback_t \<Rightarrow> 'w RegisterBank \<Rightarrow> 'w RegisterBank" where
  "del_callback addr s = s\<lparr>callbacks := del_loop addr [0..<MAX_REG_CALLBACKS] (callbacks s)\<rparr>"

subsection \<open>event_handler\<close>

text \<open>A \<^verbatim>\<open>return\<close> in the middle of \<^verbatim>\<open>event_handler\<close> ends it; otherwise the next statement runs.\<close>

datatype ('r, 'c) flow = Return 'r | Next 'c

text \<open>
  The first \<^verbatim>\<open>switch\<close>: the number of bytes to receive, and where \<^verbatim>\<open>input_buffer\<close> points, as
  an offset into \<^verbatim>\<open>regdata2.bytes\<close> (0 for \<^verbatim>\<open>bytes\<close>, 1 for \<^verbatim>\<open>multibyte.data\<close>).
\<close>

definition request_length ::
  "uint8_t \<Rightarrow> 'w RegisterBank \<Rightarrow> ('w RegisterBank, uint8_t \<times> nat \<times> 'w RegisterBank) flow" where
  "request_length op s =
     (if op = ROP_WRITE_8 then Next (1, 0, s)
      else if op = ROP_WRITE_16 then Next (2, 0, s)
      else if op = ROP_WRITE_32 then Next (4, 0, s)
      else if op = ROP_WRITE_MB then
        (case read_byte s of
           (cnt, s1) \<Rightarrow>
             if timeout s1 then Return (desync False s1)
             else Next (cnt, 1, s1\<lparr>regdata2 := (regdata2 s1)[0 := cnt]\<rparr>))
      else Next (0, 0, s))"

text \<open>
  The loop that reads the request bytes: \<open>i\<close> is the index, \<open>n\<close> the iterations left. The byte
  is stored before the timeout flag is looked at, as in the source.
\<close>

fun read_request ::
  "nat \<Rightarrow> nat \<Rightarrow> nat \<Rightarrow> 'w RegisterBank \<Rightarrow> ('w RegisterBank, 'w RegisterBank) flow" where
  "read_request input_buffer i 0 s = Next s"
| "read_request input_buffer i (Suc n) s =
     (case read_byte s of
        (b, s1) \<Rightarrow>
          (case store_byte (input_buffer + i) b s1 of
             None \<Rightarrow> Return (s1\<lparr>overrun := True\<rparr>)
           | Some s2 \<Rightarrow>
               if timeout s2 then Return (desync False s2)
               else read_request input_buffer (Suc i) n s2))"

text \<open>
  The second \<^verbatim>\<open>switch\<close>: \<^verbatim>\<open>result\<close>, the number of bytes to send and the new state. The
  dispatchers take the address as \<^verbatim>\<open>uint8_t\<close>, so the 16-bit \<open>addr\<close> is converted at the call.
\<close>

definition dispatch ::
  "'w program \<Rightarrow> uint8_t \<Rightarrow> uint16_t \<Rightarrow> 'w RegisterBank \<Rightarrow> bool \<times> uint8_t \<times> 'w RegisterBank" where
  "dispatch prog op addr s =
     (if op = ROP_READ_8 then
        (case callbacks_call_one prog op (ucast addr) s of (r, s') \<Rightarrow> (r, 1, s'))
      else if op = ROP_READ_16 then
        (case callbacks_call_one prog op (ucast addr) s of (r, s') \<Rightarrow> (r, 2, s'))
      else if op = ROP_READ_32 then
        (case callbacks_call_one prog op (ucast addr) s of (r, s') \<Rightarrow> (r, 4, s'))
      else if op = ROP_READ_MB then
        (case callbacks_call_one prog op (ucast addr) s of
           (r, s') \<Rightarrow> (r, multibyte_size (regdata2 s') + 1, s'))
      else if op = ROP_WRITE_8 \<or> op = ROP_WRITE_16 \<or> op = ROP_WRITE_32 \<or> op = ROP_WRITE_MB then
        (True, 0, callbacks_call_all prog op (ucast addr) s)
      else (True, 0, s))"

text \<open>The loop that sends the output bytes.\<close>

fun send_output :: "nat \<Rightarrow> nat \<Rightarrow> 'w RegisterBank \<Rightarrow> 'w RegisterBank" where
  "send_output i 0 s = s"
| "send_output i (Suc n) s =
     (case load_byte i s of (b, s1) \<Rightarrow> send_output (Suc i) n (port_write b s1))"

definition reply :: "bool \<Rightarrow> uint8_t \<Rightarrow> 'w RegisterBank \<Rightarrow> 'w RegisterBank" where
  "reply result cnt s =
     (if result then send_output 0 (unat cnt) (port_write ACK s)
      else port_write NAK s)"

text \<open>The part of \<^verbatim>\<open>event_handler\<close> after the header has been decoded.\<close>

definition handle_request ::
  "'w program \<Rightarrow> uint8_t \<Rightarrow> uint16_t \<Rightarrow> 'w RegisterBank \<Rightarrow> 'w RegisterBank" where
  "handle_request prog op addr s =
     (case request_length op s of
        Return s' \<Rightarrow> s'
      | Next (cnt, input_buffer, s1) \<Rightarrow>
          (case read_request input_buffer 0 (unat cnt) s1 of
             Return s' \<Rightarrow> s'
           | Next s2 \<Rightarrow>
               (case dispatch prog op addr s2 of
                  (result, cnt', s3) \<Rightarrow> reply result cnt' s3)))"

definition decode_op :: "uint8_t \<Rightarrow> uint8_t" where
  "decode_op b1 = drop_bit 2 b1"

definition decode_addr :: "uint8_t \<Rightarrow> uint8_t \<Rightarrow> uint16_t" where
  "decode_addr b1 b2 = push_bit 8 (ucast (b1 AND 0x03)) OR ucast b2"

definition event_handler :: "'w program \<Rightarrow> 'w RegisterBank \<Rightarrow> 'w RegisterBank" where
  "event_handler prog s0 =
     (if \<not> available (port s0) then s0
      else case read_byte s0 of
        (b1, s) \<Rightarrow>
          if timeout s then desync False s
          else if sync_state s = SYNC_NONE then
            (if b1 = 0xAA \<or> b1 = 0xA5 then
               port_write 0x55 (s\<lparr>sync_state := (if b1 = 0xAA then SYNC_OK else SYNC_CHECKSUM)\<rparr>)
             else s)
          else case read_byte s of
            (b2, s') \<Rightarrow>
              if timeout s' \<or> (b1 = 0xff \<and> b2 = 0xff) then desync False s'
              else handle_request prog (decode_op b1) (decode_addr b1 b2) s')"

text \<open>The sketch's \<^verbatim>\<open>loop()\<close> calls \<^verbatim>\<open>event_handler\<close> again and again; \<open>n\<close> rounds of it.\<close>

primrec loop :: "'w program \<Rightarrow> nat \<Rightarrow> 'w RegisterBank \<Rightarrow> 'w RegisterBank" where
  "loop prog 0 s = s"
| "loop prog (Suc n) s = loop prog n (event_handler prog s)"

text \<open>
  The slots that hold a callback, in the order the dispatch loops visit them, and the part of
  the invocation trace that a step from \<open>s\<close> to \<open>s'\<close> has added.
\<close>

definition occupied :: "'w RegisterBank \<Rightarrow> nat list" where
  "occupied s = filter (\<lambda>i. callbacks s ! i \<noteq> NULL) [0..<MAX_REG_CALLBACKS]"

definition new_calls :: "'w RegisterBank \<Rightarrow> 'w RegisterBank \<Rightarrow> call list" where
  "new_calls s s' = drop (length (calls s)) (calls s')"


text \<open>The operation codes that the two \<^verbatim>\<open>switch\<close> statements name.\<close>

definition is_read :: "uint8_t \<Rightarrow> bool" where
  "is_read op = (op = ROP_READ_8 \<or> op = ROP_READ_16 \<or> op = ROP_READ_32 \<or> op = ROP_READ_MB)"

definition is_write :: "uint8_t \<Rightarrow> bool" where
  "is_write op = (op = ROP_WRITE_8 \<or> op = ROP_WRITE_16 \<or> op = ROP_WRITE_32 \<or> op = ROP_WRITE_MB)"

text \<open>
  The body a write request carries after its two header bytes; a multibyte body is its length
  byte, at most \<^verbatim>\<open>MAX_MB_SIZE\<close>, and that many data bytes.
\<close>

definition write_body :: "uint8_t \<Rightarrow> uint8_t list \<Rightarrow> bool" where
  "write_body op body =
     (op = ROP_WRITE_8 \<and> length body = 1 \<or> op = ROP_WRITE_16 \<and> length body = 2 \<or>
      op = ROP_WRITE_32 \<and> length body = 4 \<or>
      op = ROP_WRITE_MB \<and> body \<noteq> [] \<and> length (tl body) = unat (hd body) \<and>
        unat (hd body) \<le> MAX_MB_SIZE)"

text \<open>
  The input holds a complete frame: both header bytes, and unless they are the resync pattern,
  the bytes that the first \<^verbatim>\<open>switch\<close> and the read loop of \<^verbatim>\<open>event_handler\<close> go on to read
  for the operation, none of them missing or late.
\<close>

definition have_bytes :: "nat \<Rightarrow> uint8_t option list \<Rightarrow> bool" where
  "have_bytes n r = (n \<le> length r \<and> None \<notin> set (take n r))"



text \<open>
  The input is a multibyte write whose length byte exceeds \<^verbatim>\<open>MAX_MB_SIZE\<close> and whose first
  \<^verbatim>\<open>MAX_MB_SIZE\<close> data bytes arrive: the read loop then comes to the store behind the last
  element of \<^verbatim>\<open>multibyte.data\<close>.
\<close>

definition oversized :: "uint8_t option list \<Rightarrow> bool" where
  "oversized r =
     (case r of
        Some b1 # Some b2 # Some n # r' \<Rightarrow>
          decode_op b1 = ROP_WRITE_MB \<and> MAX_MB_SIZE < unat n \<and> have_bytes MAX_MB_SIZE r'
      | _ \<Rightarrow> False)"

section \<open>The demo sketch\<close>

text \<open>
  \<^verbatim>\<open>remregs_demo.ino\<close>: its callback acts on the LED, two servo motors and the timer. Its
  address is pointer 1 of the table \<open>sketch\<close>; \<^verbatim>\<open>data->dword\<close> is stored low byte first.
\<close>

record sketch_world =
  led :: uint8_t
  motor1 :: uint8_t
  motor2 :: uint8_t
  millis :: "32 word"

definition register_callback :: "sketch_world callback_fn" where
  "register_callback operation address data w =
     (if operation = ROP_WRITE_8 then
        (if address = 1 then (True, data, w\<lparr>led := data ! 0\<rparr>)
         else if address = 2 then (True, data, w\<lparr>motor1 := data ! 0\<rparr>)
         else if address = 3 then (True, data, w\<lparr>motor2 := data ! 0\<rparr>)
         else (False, data, w))
      else if operation = ROP_WRITE_MB then
        (if address = 1 then (True, data, w\<lparr>motor1 := data ! 1, motor2 := data ! 2\<rparr>)
         else (False, data, w))
      else if operation = ROP_READ_32 then
        (if address = 1 then
           (True, data[0 := ucast (millis w), 1 := ucast (drop_bit 8 (millis w)),
                       2 := ucast (drop_bit 16 (millis w)), 3 := ucast (drop_bit 24 (millis w))], w)
         else (False, data, w))
      else (False, data, w))"

definition sketch :: "sketch_world program" where
  "sketch p = (if p = 1 then register_callback else (\<lambda>operation address data w. (False, data, w)))"

definition power_on :: sketch_world where
  "power_on = \<lparr>led = 1, motor1 = 0, motor2 = 0, millis = 12345\<rparr>"

definition wire :: "uint8_t option list \<Rightarrow> HardwareSerial" where
  "wire input = \<lparr>rx = input, tx = [], read_timeout_ms = 1000\<rparr>"

definition sketch_setup :: "uint8_t option list \<Rightarrow> sketch_world RegisterBank" where
  "sketch_setup input = add_callback 1 (RegisterBank_new (wire input) power_on)"

text \<open>The sketch after the master's sync byte \<open>0xAA\<close> has been handled, with \<open>input\<close> still to come.\<close>

definition synced :: "uint8_t option list \<Rightarrow> sketch_world RegisterBank" where
  "synced input = event_handler sketch (sketch_setup (Some 0xAA # input))"

text \<open>
  A second application, for the registry alone: the callbacks at pointers 5, 6 and 7 decline
  every request. Callback 5 is registered, then 6; then 5 is removed and 7 registered.
\<close>

definition decline :: "unit program" where
  "decline p = (\<lambda>operation address data w. (False, data, w))"

definition reregistered :: "uint8_t option list \<Rightarrow> unit RegisterBank" where
  "reregistered input =
     add_callback 7 (del_callback 5 (add_callback 6 (add_callback 5
       (RegisterBank_new (wire input) ()))))"

text \<open>Thirty payload bytes, one more than a multibyte register holds.\<close>

definition thirty_bytes :: "uint8_t list" where
  "thirty_bytes = [1, 2, 3, 4, 5, 6, 7, 8, 9, 10, 11, 12, 13, 14, 15, 16, 17, 18, 19, 20,
                   21, 22, 23, 24, 25, 26, 27, 28, 29, 30]"

section \<open>Desynchronisation\<close>

lemma tx_desync_burst: "tx (port (desync_burst n s)) = tx (port s) @ replicate n 0xff"
  by (induction n arbitrary: s) (simp_all add: port_write_def replicate_append_same)

lemma desync_burst_frame:
  "rx (port (desync_burst n s)) = rx (port s)"
  "sync_state (desync_burst n s) = sync_state s"
  "callbacks (desync_burst n s) = callbacks s"
  "regdata2 (desync_burst n s) = regdata2 s"
  "timeout (desync_burst n s) = timeout s"
  "overrun (desync_burst n s) = overrun s"
  "calls (desync_burst n s) = calls s"
  "world (desync_burst n s) = world s"
  by (induction n arbitrary: s) (simp_all add: port_write_def)

lemma tx_desync:
  "tx (port (desync force s)) =
     tx (port s) @ (if force \<or> sync_state s \<noteq> SYNC_NONE then replicate 34 0xff else [])"
  by (simp add: desync_def tx_desync_burst MAX_MB_SIZE_def)

lemma desync_frame:
  "rx (port (desync force s)) = rx (port s)"
  "sync_state (desync force s) = SYNC_NONE"
  "callbacks (desync force s) = callbacks s"
  "regdata2 (desync force s) = regdata2 s"
  "timeout (desync force s) = timeout s"
  "overrun (desync force s) = overrun s"
  "calls (desync force s) = calls s"
  "world (desync force s) = world s"
  by (simp_all add: desync_def desync_burst_frame)

text \<open>
  Claim C8. A desync that is forced, or performed in a synced state, appends exactly
  \<open>MAX_MB_SIZE + 5 = 34\<close> bytes \<open>0xff\<close> to the output; a desync that is not forced and finds the
  state \<open>SYNC_NONE\<close> writes nothing; either way the state is \<open>SYNC_NONE\<close> afterwards. The
  constructor ends with a forced desync: whatever port it is given, the new bank has written the
  34 bytes and is in \<open>SYNC_NONE\<close>.
\<close>

theorem desync_burst_C8:
  "tx (port (desync force s)) =
     tx (port s) @ (if force \<or> sync_state s \<noteq> SYNC_NONE
                    then replicate (MAX_MB_SIZE + 5) 0xff else [])
   \<and> MAX_MB_SIZE + 5 = 34
   \<and> sync_state (desync force s) = SYNC_NONE
   \<and> tx (port (RegisterBank_new p w)) = tx p @ replicate 34 0xff
   \<and> sync_state (RegisterBank_new p w) = SYNC_NONE"
  by (simp add: tx_desync desync_frame RegisterBank_new_def MAX_MB_SIZE_def)

section \<open>Reading and writing the port\<close>

lemma read_byte_Some:
  "rx (port s) = Some b # rest \<Longrightarrow>
   read_byte s = (b, s\<lparr>timeout := False, port := (port s)\<lparr>rx := rest\<rparr>\<rparr>)"
  by (simp add: read_byte_def Let_def)

lemma invoke_frame:
  "invoke prog i op a s = (r, s') \<Longrightarrow>
   port s' = port s \<and> sync_state s' = sync_state s \<and> callbacks s' = callbacks s \<and>
   timeout s' = timeout s \<and> overrun s' = overrun s \<and>
   calls s' = calls s @ [Call i (callbacks s ! i) op a r]"
  by (auto simp: invoke_def split: prod.splits)

lemma call_one_loop_frame:
  "call_one_loop prog op a is s = (r, s') \<Longrightarrow>
   port s' = port s \<and> sync_state s' = sync_state s \<and> callbacks s' = callbacks s \<and>
   timeout s' = timeout s \<and> overrun s' = overrun s"
proof (induction "is" arbitrary: s)
  case Nil
  then show ?case by simp
next
  case (Cons i "is")
  show ?case
  proof (cases "callbacks s ! i \<noteq> NULL")
    case False
    with Cons show ?thesis by simp
  next
    case True
    obtain r1 s1 where inv: "invoke prog i op a s = (r1, s1)" by (cases "invoke prog i op a s")
    note fr = invoke_frame [OF inv]
    show ?thesis
    proof (cases r1)
      case True
      with \<open>callbacks s ! i \<noteq> NULL\<close> inv Cons.prems fr show ?thesis by simp
    next
      case False
      with \<open>callbacks s ! i \<noteq> NULL\<close> inv Cons.prems have "call_one_loop prog op a is s1 = (r, s')"
        by simp
      from Cons.IH [OF this] fr show ?thesis by simp
    qed
  qed
qed

lemma call_all_loop_frame:
  "port (call_all_loop prog op a is s) = port s \<and>
   sync_state (call_all_loop prog op a is s) = sync_state s \<and>
   callbacks (call_all_loop prog op a is s) = callbacks s \<and>
   timeout (call_all_loop prog op a is s) = timeout s \<and>
   overrun (call_all_loop prog op a is s) = overrun s"
proof (induction "is" arbitrary: s)
  case Nil
  then show ?case by simp
next
  case (Cons i "is")
  obtain r1 s1 where inv: "invoke prog i op a s = (r1, s1)" by (cases "invoke prog i op a s")
  from invoke_frame [OF inv] Cons.IH [of s1] Cons.IH [of s] inv show ?case by simp
qed

lemma read_byte_cases:
  obtains (got) b rest where "rx (port s) = Some b # rest"
      "read_byte s = (b, s\<lparr>timeout := False, port := (port s)\<lparr>rx := rest\<rparr>\<rparr>)"
  | (timed_out) s1 where "read_byte s = (0xff, s1)" "timeout s1" "tx (port s1) = tx (port s)"
      "sync_state s1 = sync_state s" "calls s1 = calls s" "callbacks s1 = callbacks s"
      "\<forall>b rest. rx (port s) \<noteq> Some b # rest"
proof (cases "rx (port s)")
  case Nil
  then show ?thesis
    by (intro timed_out [of "s\<lparr>timeout := True\<rparr>"]) (simp_all add: read_byte_def Let_def)
next
  case (Cons x rest)
  show ?thesis
  proof (cases x)
    case None
    with Cons show ?thesis
      by (intro timed_out [of "s\<lparr>port := (port s)\<lparr>rx := rest\<rparr>, timeout := True\<rparr>"])
        (simp_all add: read_byte_def Let_def)
  next
    case (Some b)
    with Cons show ?thesis by (intro got [of b rest]) (simp_all add: read_byte_def Let_def)
  qed
qed

lemma store_byte_Some:
  "k < MAX_MB_SIZE + 1 \<Longrightarrow> store_byte k v s = Some (s\<lparr>regdata2 := (regdata2 s)[k := v]\<rparr>)"
  by (simp add: store_byte_def)

lemma store_byte_None: "\<not> k < MAX_MB_SIZE + 1 \<Longrightarrow> store_byte k v s = None"
  by (simp add: store_byte_def)

lemma store_byte_frame:
  "store_byte k v s = Some s' \<Longrightarrow>
   port s' = port s \<and> sync_state s' = sync_state s \<and> callbacks s' = callbacks s \<and>
   timeout s' = timeout s \<and> overrun s' = overrun s \<and> calls s' = calls s \<and> world s' = world s"
  by (auto simp: store_byte_def split: if_splits)

lemma port_write_frame:
  "rx (port (port_write b s)) = rx (port s) \<and> tx (port (port_write b s)) = tx (port s) @ [b] \<and>
   sync_state (port_write b s) = sync_state s \<and> callbacks (port_write b s) = callbacks s \<and>
   regdata2 (port_write b s) = regdata2 s \<and> timeout (port_write b s) = timeout s \<and>
   overrun (port_write b s) = overrun s \<and>
   calls (port_write b s) = calls s \<and> world (port_write b s) = world s"
  by (simp add: port_write_def)

lemma load_byte_frame:
  "load_byte k s = (b, s') \<Longrightarrow>
   port s' = port s \<and> sync_state s' = sync_state s \<and> callbacks s' = callbacks s \<and>
   regdata2 s' = regdata2 s \<and> timeout s' = timeout s \<and> calls s' = calls s \<and> world s' = world s"
  by (auto simp: load_byte_def split: if_splits)

lemma send_output_frame:
  "rx (port (send_output i n s)) = rx (port s) \<and>
   sync_state (send_output i n s) = sync_state s \<and> callbacks (send_output i n s) = callbacks s \<and>
   regdata2 (send_output i n s) = regdata2 s \<and> timeout (send_output i n s) = timeout s \<and>
   calls (send_output i n s) = calls s \<and> world (send_output i n s) = world s"
proof (induction n arbitrary: i s)
  case 0
  then show ?case by simp
next
  case (Suc n)
  obtain b s1 where lb: "load_byte i s = (b, s1)" by (cases "load_byte i s")
  from load_byte_frame [OF lb] Suc [where i = "Suc i" and s = "port_write b s1"] lb show ?case
    by (simp add: port_write_frame)
qed

lemma send_output_tx:
  "\<exists>out. length out = n \<and> tx (port (send_output i n s)) = tx (port s) @ out"
proof (induction n arbitrary: i s)
  case 0
  then show ?case by simp
next
  case (Suc n)
  obtain b s1 where lb: "load_byte i s = (b, s1)" by (cases "load_byte i s")
  from Suc [where i = "Suc i" and s = "port_write b s1"] obtain out where
    "length out = n" "tx (port (send_output (Suc i) n (port_write b s1))) = tx (port (port_write b s1)) @ out"
    by blast
  with load_byte_frame [OF lb] lb have
    "length (b # out) = Suc n \<and> tx (port (send_output i (Suc n) s)) = tx (port s) @ (b # out)"
    by (simp add: port_write_frame)
  then show ?case by blast
qed

lemma reply_frame:
  "rx (port (reply r cnt s)) = rx (port s) \<and>
   sync_state (reply r cnt s) = sync_state s \<and> callbacks (reply r cnt s) = callbacks s \<and>
   regdata2 (reply r cnt s) = regdata2 s \<and> timeout (reply r cnt s) = timeout s \<and>
   calls (reply r cnt s) = calls s \<and> world (reply r cnt s) = world s"
  by (simp add: reply_def send_output_frame port_write_frame)

lemma reply_tx:
  "\<exists>out. length out = unat cnt \<and>
     tx (port (reply r cnt s)) = tx (port s) @ (if r then ACK # out else [NAK])"
proof (cases r)
  case True
  from send_output_tx [of "unat cnt" 0 "port_write ACK s"] obtain out where
    "length out = unat cnt"
    "tx (port (send_output 0 (unat cnt) (port_write ACK s))) = tx (port (port_write ACK s)) @ out"
    by blast
  with True show ?thesis by (auto simp: reply_def port_write_frame)
next
  case False
  then show ?thesis by (simp add: reply_def port_write_frame) (metis Ex_list_of_length)
qed


section \<open>The invocation trace of the dispatchers\<close>

lemma call_all_loop_calls:
  "\<exists>new. calls (call_all_loop prog op a is s) = calls s @ new \<and>
     map slot new = filter (\<lambda>i. callbacks s ! i \<noteq> NULL) is \<and>
     (\<forall>c\<in>set new. callee c = callbacks s ! slot c \<and> passed_operation c = op \<and>
        passed_address c = a)"
proof (induction "is" arbitrary: s)
  case Nil
  then show ?case by simp
next
  case (Cons i "is")
  show ?case
  proof (cases "callbacks s ! i \<noteq> NULL")
    case False
    with Cons [of s] show ?thesis by simp
  next
    case True
    obtain r1 s1 where inv: "invoke prog i op a s = (r1, s1)" by (cases "invoke prog i op a s")
    note fr = invoke_frame [OF inv]
    from Cons [of s1] obtain new1 where new1:
      "calls (call_all_loop prog op a is s1) = calls s1 @ new1"
      "map slot new1 = filter (\<lambda>i. callbacks s1 ! i \<noteq> NULL) is"
      "\<forall>c\<in>set new1. callee c = callbacks s1 ! slot c \<and> passed_operation c = op \<and>
         passed_address c = a"
      by blast
    let ?new = "Call i (callbacks s ! i) op a r1 # new1"
    from True inv fr new1 have
      "calls (call_all_loop prog op a (i # is) s) = calls s @ ?new \<and>
       map slot ?new = filter (\<lambda>i. callbacks s ! i \<noteq> NULL) (i # is) \<and>
       (\<forall>c\<in>set ?new. callee c = callbacks s ! slot c \<and> passed_operation c = op \<and>
          passed_address c = a)"
      by simp
    then show ?thesis by blast
  qed
qed

lemma call_one_loop_calls:
  "call_one_loop prog op a is s = (r, s') \<Longrightarrow>
   \<exists>new. calls s' = calls s @ new \<and>
     map slot new = take (length new) (filter (\<lambda>i. callbacks s ! i \<noteq> NULL) is) \<and>
     (\<forall>c\<in>set new. callee c = callbacks s ! slot c \<and> passed_operation c = op \<and>
        passed_address c = a) \<and>
     map handled new =
       (if r then replicate (length new - 1) False @ [True]
        else replicate (length (filter (\<lambda>i. callbacks s ! i \<noteq> NULL) is)) False)"
proof (induction "is" arbitrary: s)
  case Nil
  then show ?case by auto
next
  case (Cons i "is")
  show ?case
  proof (cases "callbacks s ! i \<noteq> NULL")
    case False
    with Cons.prems have "call_one_loop prog op a is s = (r, s')" by simp
    moreover from False have
      "filter (\<lambda>i. callbacks s ! i \<noteq> NULL) (i # is) = filter (\<lambda>i. callbacks s ! i \<noteq> NULL) is"
      by simp
    ultimately show ?thesis using Cons.IH [of s] by metis
  next
    case True
    obtain r1 s1 where inv: "invoke prog i op a s = (r1, s1)" by (cases "invoke prog i op a s")
    note fr = invoke_frame [OF inv]
    show ?thesis
    proof (cases r1)
      case r1: True
      with True inv Cons.prems have "r" "s' = s1" by simp_all
      let ?new = "[Call i (callbacks s ! i) op a True]"
      from \<open>r\<close> \<open>s' = s1\<close> r1 fr True have
        "calls s' = calls s @ ?new \<and>
         map slot ?new = take (length ?new) (filter (\<lambda>i. callbacks s ! i \<noteq> NULL) (i # is)) \<and>
         (\<forall>c\<in>set ?new. callee c = callbacks s ! slot c \<and> passed_operation c = op \<and>
            passed_address c = a) \<and>
         map handled ?new =
           (if r then replicate (length ?new - 1) False @ [True]
            else replicate (length (filter (\<lambda>i. callbacks s ! i \<noteq> NULL) (i # is))) False)"
        by simp
      then show ?thesis by blast
    next
      case r1: False
      with True inv Cons.prems have "call_one_loop prog op a is s1 = (r, s')" by simp
      from Cons.IH [OF this] obtain new1 where new1:
        "calls s' = calls s1 @ new1"
        "map slot new1 = take (length new1) (filter (\<lambda>i. callbacks s1 ! i \<noteq> NULL) is)"
        "\<forall>c\<in>set new1. callee c = callbacks s1 ! slot c \<and> passed_operation c = op \<and>
           passed_address c = a"
        "map handled new1 =
           (if r then replicate (length new1 - 1) False @ [True]
            else replicate (length (filter (\<lambda>i. callbacks s1 ! i \<noteq> NULL) is)) False)"
        by blast
      let ?new = "Call i (callbacks s ! i) op a False # new1"
      have ne: "r \<Longrightarrow> new1 \<noteq> []" using new1(4) by auto
      have hd: "map handled ?new =
           (if r then replicate (length ?new - 1) False @ [True]
            else replicate (length (filter (\<lambda>i. callbacks s ! i \<noteq> NULL) (i # is))) False)"
      proof (cases r)
        case True
        with ne obtain c cs where "new1 = c # cs" by (cases new1) auto
        with True new1(4) show ?thesis by simp
      next
        case False
        with new1(4) fr \<open>callbacks s ! i \<noteq> NULL\<close> show ?thesis by simp
      qed
      from r1 fr True new1(1-3) have
        "calls s' = calls s @ ?new \<and>
         map slot ?new = take (length ?new) (filter (\<lambda>i. callbacks s ! i \<noteq> NULL) (i # is)) \<and>
         (\<forall>c\<in>set ?new. callee c = callbacks s ! slot c \<and> passed_operation c = op \<and>
            passed_address c = a)"
        by simp
      with hd show ?thesis by blast
    qed
  qed
qed

section \<open>Requests\<close>

lemma callbacks_call_one_frame:
  "callbacks_call_one prog op a s = (r, s') \<Longrightarrow>
   port s' = port s \<and> sync_state s' = sync_state s \<and> callbacks s' = callbacks s \<and>
   timeout s' = timeout s \<and> overrun s' = overrun s"
  unfolding callbacks_call_one_def by (rule call_one_loop_frame)

lemma callbacks_call_all_frame:
  "port (callbacks_call_all prog op a s) = port s \<and>
   sync_state (callbacks_call_all prog op a s) = sync_state s \<and>
   callbacks (callbacks_call_all prog op a s) = callbacks s \<and>
   timeout (callbacks_call_all prog op a s) = timeout s \<and>
   overrun (callbacks_call_all prog op a s) = overrun s"
  unfolding callbacks_call_all_def by (rule call_all_loop_frame)

lemma dispatch_frame:
  assumes "dispatch prog op addr s = (r, c, s')"
  shows "port s' = port s \<and> sync_state s' = sync_state s \<and> callbacks s' = callbacks s \<and>
   timeout s' = timeout s \<and> overrun s' = overrun s"
proof -
  obtain r1 s1 where one: "callbacks_call_one prog op (ucast addr) s = (r1, s1)"
    by (cases "callbacks_call_one prog op (ucast addr) s")
  from assms one have "s' = s1 \<or> s' = callbacks_call_all prog op (ucast addr) s \<or> s' = s"
    by (auto simp: dispatch_def split: if_splits)
  with callbacks_call_one_frame [OF one] callbacks_call_all_frame [of prog op "ucast addr" s]
  show ?thesis by auto
qed



lemma ucast_decode_addr: "ucast (decode_addr b1 b2) = b2"
  unfolding decode_addr_def
  by (rule bit_word_eqI) (auto simp: bit_simps)

lemma event_handler_header:
  assumes "sync_state s \<noteq> SYNC_NONE" and "rx (port s) = Some b1 # Some b2 # rest"
    and "\<not> (b1 = 0xff \<and> b2 = 0xff)"
  shows "event_handler prog s =
     handle_request prog (decode_op b1) (decode_addr b1 b2)
       (s\<lparr>timeout := False, port := (port s)\<lparr>rx := rest\<rparr>\<rparr>)"
  using assms by (auto simp: event_handler_def available_def read_byte_Some)

lemma event_handler_resync:
  assumes "sync_state s \<noteq> SYNC_NONE" and "rx (port s) = Some 0xff # Some 0xff # rest"
  shows "event_handler prog s =
     desync False (s\<lparr>timeout := False, port := (port s)\<lparr>rx := rest\<rparr>\<rparr>)"
  using assms by (simp add: event_handler_def available_def read_byte_Some)

lemma event_handler_unsynced:
  assumes "sync_state s = SYNC_NONE" and "rx (port s) = Some b # rest"
    and "b \<noteq> 0xAA" and "b \<noteq> 0xA5"
  shows "event_handler prog s = s\<lparr>timeout := False, port := (port s)\<lparr>rx := rest\<rparr>\<rparr>"
  using assms by (simp add: event_handler_def available_def read_byte_Some)

lemma handle_request_no_input:
  assumes "\<not> is_write op"
  shows "handle_request prog op addr s =
     (case dispatch prog op addr s of (result, cnt, s3) \<Rightarrow> reply result cnt s3)"
  using assms by (simp add: handle_request_def request_length_def is_write_def)

lemma dispatch_undefined:
  assumes "\<not> is_read op" and "\<not> is_write op"
  shows "dispatch prog op addr s = (True, 0, s)"
  using assms by (simp add: dispatch_def is_read_def is_write_def)

lemma dispatch_read:
  assumes "is_read op"
  shows "fst (dispatch prog op addr s) = fst (callbacks_call_one prog op (ucast addr) s)
    \<and> snd (snd (dispatch prog op addr s)) = snd (callbacks_call_one prog op (ucast addr) s)"
  using assms by (auto simp: dispatch_def is_read_def split: prod.splits)

lemma dispatch_write:
  assumes "is_write op"
  shows "dispatch prog op addr s = (True, 0, callbacks_call_all prog op (ucast addr) s)"
  using assms by (auto simp: dispatch_def is_write_def rop_defs)

lemma unclaimed_read_trace:
  assumes "sync_state s \<noteq> SYNC_NONE" and "rx (port s) = Some b1 # Some b2 # rest"
    and "is_read (decode_op b1)"
    and "\<forall>c\<in>set (new_calls s (event_handler prog s)). \<not> handled c"
  shows "tx (port (event_handler prog s)) = tx (port s) @ [NAK]
     \<and> rx (port (event_handler prog s)) = rest
     \<and> sync_state (event_handler prog s) = sync_state s
     \<and> map slot (new_calls s (event_handler prog s)) = occupied s"
proof -
  let ?op = "decode_op b1" and ?a = "ucast (decode_addr b1 b2) :: uint8_t"
  let ?s1 = "s\<lparr>timeout := False, port := (port s)\<lparr>rx := rest\<rparr>\<rparr>"
  let ?occ = "filter (\<lambda>i. callbacks s ! i \<noteq> NULL) [0..<MAX_REG_CALLBACKS]"
  from assms(3) have nff: "\<not> (b1 = 0xff \<and> b2 = 0xff)"
    by (auto simp: is_read_def decode_op_def rop_defs)
  from assms(3) have nw: "\<not> is_write ?op" by (auto simp: is_read_def is_write_def rop_defs)
  obtain r c s3 where d: "dispatch prog ?op (decode_addr b1 b2) ?s1 = (r, c, s3)"
    by (cases "dispatch prog ?op (decode_addr b1 b2) ?s1") auto
  have eh: "event_handler prog s = reply r c s3"
    by (simp add: event_handler_header [OF assms(1,2) nff] handle_request_no_input [OF nw] d)
  from dispatch_read [OF assms(3), of prog "decode_addr b1 b2" ?s1] d
  have one: "call_one_loop prog ?op ?a [0..<MAX_REG_CALLBACKS] ?s1 = (r, s3)"
    by (simp add: callbacks_call_one_def prod_eq_iff)
  from call_one_loop_calls [OF one] obtain new where new:
    "calls s3 = calls s @ new"
    "map slot new = take (length new) ?occ"
    "map handled new =
       (if r then replicate (length new - 1) False @ [True] else replicate (length ?occ) False)"
    by auto
  from new(1) have nc: "new_calls s (event_handler prog s) = new"
    unfolding eh by (simp add: new_calls_def reply_frame)
  have "\<not> r"
  proof
    assume r
    with new(3) have "map handled new = replicate (length new - 1) False @ [True]" by simp
    then have "True \<in> set (map handled new)" by simp
    then obtain c where "c \<in> set new" "handled c" by auto
    with assms(4) nc show False by simp
  qed
  with new(3) have "length new = length ?occ" by (metis length_map length_replicate)
  with new(2) have sl: "map slot new = ?occ" by simp
  from dispatch_frame [OF d] have fr: "port s3 = port ?s1" "sync_state s3 = sync_state s"
    by simp_all
  from \<open>\<not> r\<close> fr sl show ?thesis
    unfolding nc unfolding eh by (simp add: reply_def port_write_def occupied_def)
qed

lemma read_request_complete:
  assumes "rx (port s) = map Some data @ rest" and "\<not> timeout s"
    and "buf + i + length data \<le> MAX_MB_SIZE + 1"
  shows "\<exists>s'. read_request buf i (length data) s = Next s' \<and> rx (port s') = rest \<and>
     tx (port s') = tx (port s) \<and> sync_state s' = sync_state s \<and> callbacks s' = callbacks s \<and>
     calls s' = calls s \<and> world s' = world s \<and> \<not> timeout s' \<and> overrun s' = overrun s \<and>
     (\<forall>k<buf + i. regdata2 s' ! k = regdata2 s ! k)"
  using assms
proof (induction data arbitrary: i s)
  case Nil
  then show ?case by simp
next
  case (Cons b data)
  let ?s1 = "s\<lparr>timeout := False, port := (port s)\<lparr>rx := map Some data @ rest\<rparr>\<rparr>"
  let ?s2 = "?s1\<lparr>regdata2 := (regdata2 ?s1)[buf + i := b]\<rparr>"
  from Cons.prems have rb: "read_byte s = (b, ?s1)" by (simp add: read_byte_Some)
  from Cons.prems(3) have "buf + i < MAX_MB_SIZE + 1" by simp
  then have st: "store_byte (buf + i) b ?s1 = Some ?s2" by (rule store_byte_Some)
  have s2: "rx (port ?s2) = map Some data @ rest" "\<not> timeout ?s2" by simp_all
  from Cons.prems(3) have len: "buf + Suc i + length data \<le> MAX_MB_SIZE + 1" by simp
  from Cons.IH [OF s2 len] obtain s' where s':
    "read_request buf (Suc i) (length data) ?s2 = Next s'" "rx (port s') = rest"
    "tx (port s') = tx (port ?s2)" "sync_state s' = sync_state ?s2" "callbacks s' = callbacks ?s2"
    "calls s' = calls ?s2" "world s' = world ?s2" "\<not> timeout s'" "overrun s' = overrun ?s2"
    "\<forall>k<buf + Suc i. regdata2 s' ! k = regdata2 ?s2 ! k"
    by blast
  have eq: "read_request buf i (length (b # data)) s = Next s'"
    using rb st s'(1) by simp
  from s'(10) have keep: "\<forall>k<buf + i. regdata2 s' ! k = regdata2 s ! k" by simp
  from eq s'(2-9) keep show ?case by simp
qed

lemma write_request_read:
  assumes "rx (port s) = map Some body @ rest" and "\<not> timeout s" and "write_body op body"
  shows "\<exists>s2. handle_request prog op addr s =
        port_write ACK (callbacks_call_all prog op (ucast addr) s2) \<and>
     rx (port s2) = rest \<and> tx (port s2) = tx (port s) \<and> sync_state s2 = sync_state s \<and>
     callbacks s2 = callbacks s \<and> calls s2 = calls s \<and> world s2 = world s \<and>
     overrun s2 = overrun s \<and>
     (op = ROP_WRITE_MB \<longrightarrow> regdata2 s2 ! 0 = (regdata2 s)[0 := hd body] ! 0)"
proof -
  from assms(3) have w: "is_write op" by (auto simp: write_body_def is_write_def)
  have fin: "handle_request prog op addr s = port_write ACK (callbacks_call_all prog op (ucast addr) s2)"
    if "request_length op s = Next (cnt, buf, s1)" "read_request buf 0 (unat cnt) s1 = Next s2"
    for cnt buf s1 s2
    using that by (simp add: handle_request_def dispatch_write [OF w] reply_def)
  show ?thesis
  proof (cases "op = ROP_WRITE_MB")
    case False
    with assms(3) have "\<exists>cnt :: uint8_t. request_length op s = Next (cnt, 0, s) \<and> length body = unat cnt"
      by (auto simp: write_body_def request_length_def rop_defs)
    then obtain cnt :: uint8_t where cnt: "request_length op s = Next (cnt, 0, s)"
      "length body = unat cnt"
      by blast
    from assms(3) False have "length body \<le> 4" by (auto simp: write_body_def)
    then have len: "0 + 0 + length body \<le> MAX_MB_SIZE + 1" by (simp add: MAX_MB_SIZE_def)
    from read_request_complete [OF assms(1,2) len] cnt(2) obtain s2 where s2:
      "read_request 0 0 (unat cnt) s = Next s2" "rx (port s2) = rest"
      "tx (port s2) = tx (port s)" "sync_state s2 = sync_state s" "callbacks s2 = callbacks s"
      "calls s2 = calls s" "world s2 = world s" "overrun s2 = overrun s"
      by auto
    with fin [OF cnt(1) s2(1)] False show ?thesis by auto
  next
    case True
    with assms(3) obtain n data where body: "body = n # data" "length data = unat n"
      "unat n \<le> MAX_MB_SIZE"
      by (cases body) (auto simp: write_body_def rop_defs)
    let ?s0 = "s\<lparr>timeout := False, port := (port s)\<lparr>rx := map Some data @ rest\<rparr>\<rparr>"
    let ?s1 = "?s0\<lparr>regdata2 := (regdata2 ?s0)[0 := n]\<rparr>"
    from assms(1) body have rb: "read_byte s = (n, ?s0)" by (simp add: read_byte_Some)
    with True have rl: "request_length op s = Next (n, 1, ?s1)"
      by (simp add: request_length_def rop_defs)
    have s1: "rx (port ?s1) = map Some data @ rest" "\<not> timeout ?s1" by simp_all
    from body(2,3) have len: "1 + 0 + length data \<le> MAX_MB_SIZE + 1" by simp
    from read_request_complete [OF s1 len] body(2) obtain s2 where s2:
      "read_request 1 0 (unat n) ?s1 = Next s2" "rx (port s2) = rest"
      "tx (port s2) = tx (port ?s1)" "sync_state s2 = sync_state ?s1" "callbacks s2 = callbacks ?s1"
      "calls s2 = calls ?s1" "world s2 = world ?s1" "overrun s2 = overrun ?s1"
      "\<forall>k<1 + 0. regdata2 s2 ! k = regdata2 ?s1 ! k"
      by auto
    from s2(9) have r0: "regdata2 s2 ! 0 = (regdata2 s)[0 := n] ! 0" by simp
    from fin [OF rl s2(1)] s2(2-8) r0 body True show ?thesis by auto
  qed
qed

lemma write_request_result:
  assumes "sync_state s \<noteq> SYNC_NONE"
    and "rx (port s) = Some b1 # Some b2 # map Some body @ rest"
    and "write_body (decode_op b1) body"
  shows "calls (event_handler prog s) = calls s @ new_calls s (event_handler prog s)
     \<and> map slot (new_calls s (event_handler prog s)) = occupied s
     \<and> (\<forall>c\<in>set (new_calls s (event_handler prog s)).
          callee c = callbacks s ! slot c \<and> passed_operation c = decode_op b1 \<and>
          passed_address c = b2)
     \<and> tx (port (event_handler prog s)) = tx (port s) @ [ACK]
     \<and> rx (port (event_handler prog s)) = rest
     \<and> sync_state (event_handler prog s) = sync_state s"
proof -
  let ?op = "decode_op b1"
  let ?s1 = "s\<lparr>timeout := False, port := (port s)\<lparr>rx := map Some body @ rest\<rparr>\<rparr>"
  from assms(3) have nff: "\<not> (b1 = 0xff \<and> b2 = 0xff)"
    by (auto simp: write_body_def decode_op_def rop_defs)
  have eh: "event_handler prog s = handle_request prog ?op (decode_addr b1 b2) ?s1"
    by (rule event_handler_header [OF assms(1,2) nff])
  have s1: "rx (port ?s1) = map Some body @ rest" "\<not> timeout ?s1" by simp_all
  from write_request_read [OF s1 assms(3), of prog "decode_addr b1 b2"] obtain s2 where s2:
    "event_handler prog s = port_write ACK (callbacks_call_all prog ?op b2 s2)"
    "rx (port s2) = rest" "tx (port s2) = tx (port s)" "sync_state s2 = sync_state s"
    "callbacks s2 = callbacks s" "calls s2 = calls s"
    unfolding eh by (auto simp: ucast_decode_addr)
  let ?s3 = "callbacks_call_all prog ?op b2 s2"
  from call_all_loop_calls [of prog ?op b2 "[0..<MAX_REG_CALLBACKS]" s2] obtain new where new:
    "calls ?s3 = calls s2 @ new"
    "map slot new = filter (\<lambda>i. callbacks s2 ! i \<noteq> NULL) [0..<MAX_REG_CALLBACKS]"
    "\<forall>c\<in>set new. callee c = callbacks s2 ! slot c \<and> passed_operation c = ?op \<and>
       passed_address c = b2"
    unfolding callbacks_call_all_def by blast
  have calls: "calls (event_handler prog s) = calls s @ new"
    unfolding s2(1) using new(1) s2(6) by (simp add: port_write_frame)
  then have nc: "new_calls s (event_handler prog s) = new" by (simp add: new_calls_def)
  have io: "tx (port (event_handler prog s)) = tx (port s) @ [ACK]"
    "rx (port (event_handler prog s)) = rest" "sync_state (event_handler prog s) = sync_state s"
    unfolding s2(1) using callbacks_call_all_frame [of prog ?op b2 s2] s2(2-4)
    by (simp_all add: port_write_frame)
  from calls nc new(2,3) s2(5) io show ?thesis by (simp add: occupied_def)
qed

lemma distinct_occupied: "distinct (occupied s) \<and> sorted (occupied s)"
  by (simp add: occupied_def sorted_wrt_filter)

lemma resync_once:
  assumes "sync_state s \<noteq> SYNC_NONE" and "rx (port s) = Some 0xff # Some 0xff # rest"
  shows "event_handler prog s =
     s\<lparr>timeout := False, sync_state := SYNC_NONE,
       port := (port s)\<lparr>rx := rest, tx := tx (port s) @ replicate 34 0xff\<rparr>\<rparr>"
proof -
  have b: "desync_burst n t = t\<lparr>port := (port t)\<lparr>tx := tx (port t) @ replicate n 0xff\<rparr>\<rparr>"
    for n and t :: "'a RegisterBank"
    by (induction n arbitrary: t) (simp_all add: port_write_def replicate_append_same)
  from assms show ?thesis
    by (simp add: event_handler_resync desync_def b MAX_MB_SIZE_def)
qed

section \<open>Timeouts and incomplete frames\<close>

lemma have_bytes_0: "have_bytes 0 r"
  by (simp add: have_bytes_def)

lemma have_bytes_Suc:
  "have_bytes (Suc n) r = (case r of Some b # r' \<Rightarrow> have_bytes n r' | _ \<Rightarrow> False)"
  by (auto simp: have_bytes_def split: list.split option.split)






section \<open>Stores past the buffer\<close>

lemma read_byte_overrun: "overrun (snd (read_byte s)) = overrun s"
  by (simp add: read_byte_def Let_def split: list.split option.split)

lemma read_request_overrun:
  "(case read_request buf i n s of Return s' \<Rightarrow> overrun s' | Next s' \<Rightarrow> overrun s')
   = (overrun s \<or> (buf + i \<le> MAX_MB_SIZE + 1 \<and> MAX_MB_SIZE + 1 - (buf + i) < n \<and>
        have_bytes (MAX_MB_SIZE + 1 - (buf + i)) (rx (port s)))
      \<or> (MAX_MB_SIZE + 1 < buf + i \<and> 0 < n))"
proof (induction n arbitrary: i s)
  case 0
  then show ?case by simp
next
  case (Suc n)
  obtain b s1 where rb: "read_byte s = (b, s1)" by (cases "read_byte s")
  show ?case
  proof (cases "store_byte (buf + i) b s1")
    case None
    then have "MAX_MB_SIZE + 1 \<le> buf + i" by (simp add: store_byte_def split: if_splits)
    with rb None show ?thesis by (auto simp: have_bytes_0)
  next
    case (Some s2)
    then have inr: "buf + i < MAX_MB_SIZE + 1" by (simp add: store_byte_def split: if_splits)
    then obtain k where k: "MAX_MB_SIZE + 1 - (buf + i) = Suc k"
      "MAX_MB_SIZE + 1 - (buf + Suc i) = k"
      by (cases "MAX_MB_SIZE + 1 - (buf + i)") auto
    note fr = store_byte_frame [OF Some]
    show ?thesis
    proof (cases s rule: read_byte_cases)
      case (got b' rest)
      with rb have s1: "s1 = s\<lparr>timeout := False, port := (port s)\<lparr>rx := rest\<rparr>\<rparr>" by simp
      from fr s1 have s2: "\<not> timeout s2" "rx (port s2) = rest" "overrun s2 = overrun s"
        by simp_all
      have eq: "read_request buf i (Suc n) s = read_request buf (Suc i) n s2"
        using rb Some s2(1) by simp
      from inr have le: "buf + Suc i \<le> MAX_MB_SIZE + 1" by simp
      from Suc [where i = "Suc i" and s = s2] s2 got(1) inr le k show ?thesis
        unfolding eq by (simp add: have_bytes_Suc)
    next
      case (timed_out s1')
      with rb have "s1' = s1" by simp
      moreover from rb read_byte_overrun [of s] have "overrun s1 = overrun s" by simp
      ultimately have "timeout s2" "overrun s2 = overrun s" using timed_out fr by simp_all
      moreover from timed_out(7) have "\<not> have_bytes (Suc k) (rx (port s))"
        by (auto simp: have_bytes_Suc split: list.split option.split)
      ultimately show ?thesis using rb Some inr k by (simp add: desync_frame)
    qed
  qed
qed

lemma handle_request_overrun:
  assumes "\<not> is_read op"
  shows "overrun (handle_request prog op addr s) =
     (overrun s \<or> (op = ROP_WRITE_MB \<and>
        (case rx (port s) of
           Some n # r' \<Rightarrow> MAX_MB_SIZE < unat n \<and> have_bytes MAX_MB_SIZE r'
         | _ \<Rightarrow> False)))"
proof -
  have post: "overrun (case dispatch prog op addr s2 of (r, c, s3) \<Rightarrow> reply r c s3) = overrun s2"
    for s2
  proof (cases "is_write op")
    case True
    from callbacks_call_all_frame [of prog op "ucast addr" s2] show ?thesis
      by (simp add: dispatch_write [OF True] reply_def port_write_frame)
  next
    case False
    with assms show ?thesis by (simp add: dispatch_undefined reply_def port_write_frame)
  qed
  have body: "overrun (handle_request prog op addr s) =
      (case read_request buf 0 (unat cnt) s1 of Return s' \<Rightarrow> overrun s' | Next s' \<Rightarrow> overrun s')"
    if "request_length op s = Next (cnt, buf, s1)" for cnt buf s1
    using that post by (simp add: handle_request_def split: flow.split)
  show ?thesis
  proof (cases "op = ROP_WRITE_MB")
    case False
    then have "\<exists>cnt :: uint8_t. request_length op s = Next (cnt, 0, s) \<and> unat cnt \<le> 4"
      by (auto simp: request_length_def)
    then obtain cnt :: uint8_t where cnt: "request_length op s = Next (cnt, 0, s)" "unat cnt \<le> 4"
      by blast
    from body [OF cnt(1)] read_request_overrun [of 0 0 "unat cnt" s] cnt(2) False show ?thesis
      by (simp add: MAX_MB_SIZE_def)
  next
    case True
    then have eq: "request_length op s =
        (case read_byte s of
           (cnt, s1) \<Rightarrow>
             if timeout s1 then Return (desync False s1)
             else Next (cnt, 1, s1\<lparr>regdata2 := (regdata2 s1)[0 := cnt]\<rparr>))"
      by (simp add: request_length_def rop_defs)
    show ?thesis
    proof (cases s rule: read_byte_cases)
      case (got n rest)
      let ?s1 = "s\<lparr>timeout := False, port := (port s)\<lparr>rx := rest\<rparr>,
        regdata2 := (regdata2 s)[0 := n]\<rparr>"
      from got have rl: "request_length op s = Next (n, 1, ?s1)" unfolding eq by simp
      from body [OF rl] read_request_overrun [of 1 0 "unat n" ?s1] got(1) True show ?thesis
        by (simp add: MAX_MB_SIZE_def)
    next
      case (timed_out s1)
      from timed_out(1) read_byte_overrun [of s] have "overrun s1 = overrun s" by simp
      moreover from timed_out(7) have
        "\<not> (case rx (port s) of
             Some n # r' \<Rightarrow> MAX_MB_SIZE < unat n \<and> have_bytes MAX_MB_SIZE r'
           | _ \<Rightarrow> False)"
        by (auto split: list.split option.split)
      ultimately show ?thesis using timed_out(1,2)
        unfolding handle_request_def eq by (simp add: desync_frame)
    qed
  qed
qed

text \<open>
  For an input that is not a read request, an invocation in a synced state reaches a store past
  the buffer exactly when the input is an oversized multibyte write.
\<close>

lemma overrun_iff_oversized:
  assumes "sync_state s \<noteq> SYNC_NONE" and "available (port s)"
    and "\<forall>b1 b2 r. rx (port s) = Some b1 # Some b2 # r \<longrightarrow> \<not> is_read (decode_op b1)"
  shows "overrun (event_handler prog s) = (overrun s \<or> oversized (rx (port s)))"
proof (cases s rule: read_byte_cases)
  case (timed_out s1)
  from timed_out(7) have "\<not> oversized (rx (port s))"
    by (auto simp: oversized_def split: list.split option.split)
  moreover from timed_out(1) read_byte_overrun [of s] have "overrun s1 = overrun s" by simp
  ultimately show ?thesis using timed_out assms(1,2)
    by (simp add: event_handler_def desync_frame)
next
  case (got b1 rest)
  let ?s1 = "s\<lparr>timeout := False, port := (port s)\<lparr>rx := rest\<rparr>\<rparr>"
  have eh: "event_handler prog s =
     (case read_byte ?s1 of
          (b2, s') \<Rightarrow>
            if timeout s' \<or> (b1 = 0xff \<and> b2 = 0xff) then desync False s'
            else handle_request prog (decode_op b1) (decode_addr b1 b2) s')"
    using got assms(1,2) by (simp add: event_handler_def)
  show ?thesis
  proof (cases ?s1 rule: read_byte_cases)
    case (timed_out s2)
    from timed_out(7) got(1) have "\<not> oversized (rx (port s))"
      by (auto simp: oversized_def split: list.split option.split)
    moreover from timed_out(1) read_byte_overrun [of ?s1] have "overrun s2 = overrun s" by simp
    ultimately show ?thesis using timed_out unfolding eh by (simp add: desync_frame)
  next
    case g2: (got b2 rest2)
    let ?s2 = "?s1\<lparr>timeout := False, port := (port ?s1)\<lparr>rx := rest2\<rparr>\<rparr>"
    from got(1) g2(1) have rx: "rx (port s) = Some b1 # Some b2 # rest2" by simp
    with assms(3) have nr: "\<not> is_read (decode_op b1)" by blast
    show ?thesis
    proof (cases "b1 = 0xff \<and> b2 = 0xff")
      case True
      then have "decode_op b1 \<noteq> ROP_WRITE_MB" by (simp add: decode_op_def rop_defs)
      with rx have "\<not> oversized (rx (port s))"
        by (simp add: oversized_def split: list.split option.split)
      with True g2 show ?thesis unfolding eh by (simp add: desync_frame)
    next
      case False
      with g2 have eh2: "event_handler prog s =
          handle_request prog (decode_op b1) (decode_addr b1 b2) ?s2"
        unfolding eh by auto
      from handle_request_overrun [OF nr, of prog "decode_addr b1 b2" ?s2] rx show ?thesis
        unfolding eh2 by (simp add: oversized_def split: list.split option.split)
    qed
  qed
qed

section \<open>The sketch at work\<close>

lemma upt_16: "[0..<MAX_REG_CALLBACKS] = [0,1,2,3,4,5,6,7,8,9,10,11,12,13,14,15]"
  unfolding MAX_REG_CALLBACKS_def by code_simp

lemma replicate_16: "replicate MAX_REG_CALLBACKS NULL = NULL # replicate 15 NULL"
  unfolding MAX_REG_CALLBACKS_def by (simp add: eval_nat_numeral)

lemma new_eq:
  "RegisterBank_new p w =
     \<lparr>port = \<lparr>rx = rx p, tx = tx p @ replicate 34 0xff, read_timeout_ms = 5000\<rparr>,
      sync_state = SYNC_NONE, callbacks = replicate MAX_REG_CALLBACKS NULL,
      regdata2 = replicate 30 0, timeout = False, overrun = False, calls = [],
      world = w\<rparr>"
proof -
  have b: "desync_burst n s = s\<lparr>port := (port s)\<lparr>tx := tx (port s) @ replicate n 0xff\<rparr>\<rparr>" for n and s :: "'a RegisterBank"
    by (induction n arbitrary: s) (simp_all add: port_write_def replicate_append_same)
  show ?thesis
    by (simp add: RegisterBank_new_def desync_def b MAX_MB_SIZE_def)
qed

lemma sketch_setup_eq:
  "sketch_setup input =
     \<lparr>port = \<lparr>rx = input, tx = replicate 34 0xff, read_timeout_ms = 5000\<rparr>,
      sync_state = SYNC_NONE, callbacks = 1 # replicate 15 NULL,
      regdata2 = replicate 30 0, timeout = False, overrun = False, calls = [],
      world = power_on\<rparr>"
  by (simp add: sketch_setup_def add_callback_def new_eq wire_def upt_16 replicate_16)

lemma synced_eq:
  "synced input =
     \<lparr>port = \<lparr>rx = input, tx = replicate 34 0xff @ [0x55], read_timeout_ms = 5000\<rparr>,
      sync_state = SYNC_OK, callbacks = 1 # replicate 15 NULL,
      regdata2 = replicate 30 0, timeout = False, overrun = False, calls = [],
      world = power_on\<rparr>"
  by (simp add: synced_def sketch_setup_eq event_handler_def available_def read_byte_def
      port_write_def SYNC_NONE_def)

lemmas run_defs =
  event_handler_def available_def read_byte_def handle_request_def request_length_def
  decode_op_def decode_addr_def rop_defs store_byte_def load_byte_def dispatch_def
  callbacks_call_all_def callbacks_call_one_def upt_16 invoke_def reply_def port_write_def
  MAX_MB_SIZE_def NULL_def SYNC_NONE_def SYNC_OK_def SYNC_CHECKSUM_def ACK_def NAK_def
  multibyte_size_def Let_def

lemma read_request_numeral:
  "read_request buf i (numeral k) s =
     (case read_byte s of
        (b, s1) \<Rightarrow>
          (case store_byte (buf + i) b s1 of
             None \<Rightarrow> Return (s1\<lparr>overrun := True\<rparr>)
           | Some s2 \<Rightarrow>
               if timeout s2 then Return (desync False s2)
               else read_request buf (Suc i) (pred_numeral k) s2))"
  by (simp add: numeral_eq_Suc)

lemma empty_slots_16: "replicate MAX_REG_CALLBACKS NULL = NULL # NULL # replicate 14 NULL"
  unfolding MAX_REG_CALLBACKS_def by code_simp

lemma reregistered_add_5: "add_loop 5 [0..<MAX_REG_CALLBACKS] (NULL # NULL # replicate 14 NULL) = 5 # NULL # replicate 14 NULL"
  by (simp add: upt_16)

lemma reregistered_add_6: "add_loop 6 [0..<MAX_REG_CALLBACKS] (5 # NULL # replicate 14 NULL) = 5 # 6 # replicate 14 NULL"
  by (simp add: upt_16 NULL_def)

lemma reregistered_del_5: "del_loop 5 [0..<MAX_REG_CALLBACKS] (5 # 6 # replicate 14 NULL) = NULL # 6 # replicate 14 NULL"
  by (simp add: upt_16)

lemma reregistered_add_7: "add_loop 7 [0..<MAX_REG_CALLBACKS] (NULL # 6 # replicate 14 NULL) = 7 # 6 # replicate 14 NULL"
  by (simp add: upt_16)

lemma reregistered_eq:
  "reregistered input =
     \<lparr>port = \<lparr>rx = input, tx = replicate 34 0xff, read_timeout_ms = 5000\<rparr>,
      sync_state = SYNC_NONE, callbacks = 7 # 6 # replicate 14 NULL,
      regdata2 = replicate 30 0, timeout = False, overrun = False, calls = [],
      world = ()\<rparr>"
  by (simp add: reregistered_def add_callback_def del_callback_def new_eq wire_def
      empty_slots_16 reregistered_add_5 reregistered_add_6 reregistered_del_5 reregistered_add_7)

section \<open>The registry\<close>

lemma add_loop_first_free:
  assumes "m < n" and "i \<le> m" and "\<forall>j. i \<le> j \<and> j < m \<longrightarrow> cbs ! j \<noteq> NULL"
    and "cbs ! m = NULL"
  shows "add_loop addr [i..<n] cbs = cbs[m := addr]"
  using assms(2,3)
proof (induction "m - i" arbitrary: i)
  case 0
  then have "i = m" by simp
  with assms(1) have "[i..<n] = m # [Suc m..<n]" by (simp add: upt_conv_Cons)
  with assms(4) show ?case by simp
next
  case (Suc k)
  then have lt: "i < m" by simp
  with assms(1) have u: "[i..<n] = i # [Suc i..<n]" by (simp add: upt_conv_Cons)
  from Suc.prems lt have ni: "cbs ! i \<noteq> NULL" by simp
  from Suc.hyps(2) have k: "k = m - Suc i" by simp
  from Suc.prems lt have "add_loop addr [Suc i..<n] cbs = cbs[m := addr]"
    by (intro Suc.hyps(1) k) auto
  with u ni show ?case by simp
qed

lemma add_loop_append:
  assumes "length hs < MAX_REG_CALLBACKS" and "NULL \<notin> set hs"
  shows "add_loop h [0..<MAX_REG_CALLBACKS] (hs @ replicate (MAX_REG_CALLBACKS - length hs) NULL)
       = (hs @ [h]) @ replicate (MAX_REG_CALLBACKS - length (hs @ [h])) NULL"
proof -
  let ?cbs = "hs @ replicate (MAX_REG_CALLBACKS - length hs) NULL"
  from assms(1) obtain k where k: "MAX_REG_CALLBACKS - length hs = Suc k"
    by (cases "MAX_REG_CALLBACKS - length hs") auto
  have occ: "\<forall>j. 0 \<le> j \<and> j < length hs \<longrightarrow> ?cbs ! j \<noteq> NULL"
    using assms(2) by (auto simp: nth_append dest: nth_mem)
  have free: "?cbs ! length hs = NULL" by (simp add: k)
  have "add_loop h [0..<MAX_REG_CALLBACKS] ?cbs = ?cbs[length hs := h]"
    by (rule add_loop_first_free [OF assms(1) _ occ free]) simp
  also have "\<dots> = (hs @ [h]) @ replicate (MAX_REG_CALLBACKS - length (hs @ [h])) NULL"
    using k by (simp add: list_update_append)
  finally show ?thesis .
qed

lemma callbacks_add_callback:
  "callbacks (add_callback h s) = add_loop h [0..<MAX_REG_CALLBACKS] (callbacks s)"
  by (simp add: add_callback_def)

text \<open>A registry filled by \<^verbatim>\<open>add_callback\<close> alone holds the callbacks in the order of registration.\<close>

lemma registered_in_order:
  assumes "NULL \<notin> set hs" and "length hs \<le> MAX_REG_CALLBACKS"
  shows "callbacks (fold add_callback hs (RegisterBank_new p w))
       = hs @ replicate (MAX_REG_CALLBACKS - length hs) NULL"
  using assms
proof (induction hs rule: rev_induct)
  case Nil
  then show ?case by (simp add: RegisterBank_new_def desync_frame)
next
  case (snoc h hs)
  then have "callbacks (fold add_callback hs (RegisterBank_new p w))
       = hs @ replicate (MAX_REG_CALLBACKS - length hs) NULL"
    by simp
  moreover from snoc.prems have "length hs < MAX_REG_CALLBACKS" "NULL \<notin> set hs" by simp_all
  ultimately have "add_loop h [0..<MAX_REG_CALLBACKS]
        (callbacks (fold add_callback hs (RegisterBank_new p w)))
       = (hs @ [h]) @ replicate (MAX_REG_CALLBACKS - length (hs @ [h])) NULL"
    using add_loop_append [of hs h] by simp
  moreover have "callbacks (fold add_callback (hs @ [h]) (RegisterBank_new p w))
       = add_loop h [0..<MAX_REG_CALLBACKS] (callbacks (fold add_callback hs (RegisterBank_new p w)))"
    by (simp add: callbacks_add_callback)
  ultimately show ?case by simp
qed

lemma occupied_in_order:
  assumes "callbacks s = hs @ replicate (MAX_REG_CALLBACKS - length hs) NULL"
    and "NULL \<notin> set hs" and "length hs \<le> MAX_REG_CALLBACKS"
  shows "occupied s = [0..<length hs]" and "map (\<lambda>i. callbacks s ! i) (occupied s) = hs"
proof -
  have split: "[0..<MAX_REG_CALLBACKS] = [0..<length hs] @ [length hs..<MAX_REG_CALLBACKS]"
    using assms(3) by (metis le0 upt_add_eq_append le_add_diff_inverse)
  have a: "filter (\<lambda>i. callbacks s ! i \<noteq> NULL) [0..<length hs] = [0..<length hs]"
    using assms(1,2) by (auto simp: filter_id_conv nth_append) (metis nth_mem)
  have b: "filter (\<lambda>i. callbacks s ! i \<noteq> NULL) [length hs..<MAX_REG_CALLBACKS] = []"
    using assms(1) by (auto simp: filter_empty_conv nth_append)
  show o: "occupied s = [0..<length hs]"
    unfolding occupied_def split by (simp add: a b)
  have "map (\<lambda>i. callbacks s ! i) [0..<length hs] = map (\<lambda>i. hs ! i) [0..<length hs]"
    using assms(1) by (simp add: nth_append)
  then show "map (\<lambda>i. callbacks s ! i) (occupied s) = hs"
    unfolding o by (simp add: map_nth)
qed

lemma callee_in_order:
  assumes "\<forall>c\<in>set new. callee c = callbacks s ! slot c"
    and "map slot new = take n (occupied s)"
    and "callbacks s = hs @ replicate (MAX_REG_CALLBACKS - length hs) NULL"
    and "NULL \<notin> set hs" and "length hs \<le> MAX_REG_CALLBACKS"
  shows "map callee new = take n hs"
proof -
  from assms(1) have "map callee new = map (\<lambda>i. callbacks s ! i) (map slot new)"
    by (simp add: comp_def)
  also have "\<dots> = take n (map (\<lambda>i. callbacks s ! i) (occupied s))"
    unfolding assms(2) by (simp add: take_map)
  also have "\<dots> = take n hs"
    using occupied_in_order(2) [OF assms(3-5)] by simp
  finally show ?thesis .
qed

section \<open>The claims\<close>

text \<open>
  Claim C5. In the state \<open>SYNC_NONE\<close>, when a byte \<open>b\<close> is received: \<open>0xAA\<close> leads to
  \<open>SYNC_OK\<close> and \<open>0xA5\<close> to \<open>SYNC_CHECKSUM\<close>, each with the single byte \<open>0x55\<close> written;
  any other byte leaves \<open>SYNC_NONE\<close> and writes nothing. In all three cases only that one byte
  of input is consumed and no callback runs.
\<close>

theorem unsynced_sync_byte_C5:
  assumes "sync_state s = SYNC_NONE" and "rx (port s) = Some b # rest"
  shows "sync_state (event_handler prog s) =
           (if b = 0xAA then SYNC_OK else if b = 0xA5 then SYNC_CHECKSUM else SYNC_NONE)
       \<and> tx (port (event_handler prog s)) =
           tx (port s) @ (if b = 0xAA \<or> b = 0xA5 then [0x55] else [])
       \<and> rx (port (event_handler prog s)) = rest
       \<and> calls (event_handler prog s) = calls s"
  using assms
  by (simp add: event_handler_def available_def read_byte_Some port_write_def)

theorem unsynced_sync_byte_C5_witness:
  "sync_state (sketch_setup [Some 0xAA]) = SYNC_NONE
   \<and> sync_state (event_handler sketch (sketch_setup [Some 0xAA])) = SYNC_OK
   \<and> tx (port (event_handler sketch (sketch_setup [Some 0xAA]))) = replicate 34 0xff @ [0x55]
   \<and> sync_state (event_handler sketch (sketch_setup [Some 0xA5, Some 0x00])) = SYNC_CHECKSUM
   \<and> rx (port (event_handler sketch (sketch_setup [Some 0xA5, Some 0x00]))) = [Some 0x00]
   \<and> sync_state (event_handler sketch (sketch_setup [Some 0x42])) = SYNC_NONE
   \<and> tx (port (event_handler sketch (sketch_setup [Some 0x42]))) = replicate 34 0xff"
  using unsynced_sync_byte_C5 [of "sketch_setup [Some 0xAA]" "0xAA" "[]" sketch]
    unsynced_sync_byte_C5 [of "sketch_setup [Some 0xA5, Some 0x00]" "0xA5" "[Some 0x00]" sketch]
    unsynced_sync_byte_C5 [of "sketch_setup [Some 0x42]" "0x42" "[]" sketch]
  by (simp add: sketch_setup_eq)



text \<open>
  Claim C10. In a synced state, with both header bytes received, a header that is not
  \<open>0xff 0xff\<close> and whose operation code is none of the eight defined ones: no further input is
  consumed, no callback is invoked, the sync state stays as it is, and exactly the byte \<open>ACK = 6\<close>
  is written; payload and application state are untouched.
\<close>

theorem undefined_operation_C10:
  assumes "sync_state s \<noteq> SYNC_NONE" and "rx (port s) = Some b1 # Some b2 # rest"
    and "\<not> (b1 = 0xff \<and> b2 = 0xff)"
    and "\<not> is_read (decode_op b1)" and "\<not> is_write (decode_op b1)"
  shows "rx (port (event_handler prog s)) = rest
     \<and> calls (event_handler prog s) = calls s
     \<and> sync_state (event_handler prog s) = sync_state s
     \<and> tx (port (event_handler prog s)) = tx (port s) @ [ACK] \<and> ACK = 6
     \<and> regdata2 (event_handler prog s) = regdata2 s \<and> world (event_handler prog s) = world s"
  using assms
  by (simp add: event_handler_header handle_request_no_input dispatch_undefined reply_def
      port_write_def ACK_def)

theorem undefined_operation_C10_witness:
  "sync_state (synced [Some 0x20, Some 0x05, Some 0x77]) \<noteq> SYNC_NONE
   \<and> decode_op 0x20 = 8
   \<and> \<not> is_read (decode_op 0x20) \<and> \<not> is_write (decode_op 0x20)
   \<and> rx (port (event_handler sketch (synced [Some 0x20, Some 0x05, Some 0x77]))) = [Some 0x77]
   \<and> calls (event_handler sketch (synced [Some 0x20, Some 0x05, Some 0x77])) = []
   \<and> sync_state (event_handler sketch (synced [Some 0x20, Some 0x05, Some 0x77])) = SYNC_OK
   \<and> tx (port (event_handler sketch (synced [Some 0x20, Some 0x05, Some 0x77])))
       = replicate 34 0xff @ [0x55, 0x06]"
proof -
  let ?s = "synced [Some 0x20, Some 0x05, Some 0x77]"
  have h1: "sync_state ?s \<noteq> SYNC_NONE" by (simp add: synced_eq SYNC_OK_def SYNC_NONE_def)
  have h2: "rx (port ?s) = Some 0x20 # Some 0x05 # [Some 0x77]" by (simp add: synced_eq)
  have h3: "\<not> (0x20 = (0xff :: uint8_t) \<and> 0x05 = (0xff :: uint8_t))" by simp
  have op: "decode_op 0x20 = 8" by (simp add: decode_op_def)
  have h4: "\<not> is_read (decode_op 0x20)" unfolding op by (simp add: is_read_def rop_defs)
  have h5: "\<not> is_write (decode_op 0x20)" unfolding op by (simp add: is_write_def rop_defs)
  from undefined_operation_C10 [OF h1 h2 h3 h4 h5, of sketch] h1 h4 h5 op show ?thesis
    by (simp add: synced_eq)
qed

text \<open>
  Claim C9. From a synced state, the header \<open>0xff 0xff\<close> leaves the bank in \<open>SYNC_NONE\<close>. When
  the pattern is sent twice in a row, the first invocation handles the first pattern and the
  next two invocations each discard one byte of the second; the state is \<open>SYNC_NONE\<close> after
  each of them, and the bank ends in the very state that the pattern sent once leaves.
\<close>

theorem resync_idempotent_C9:
  assumes "sync_state s \<noteq> SYNC_NONE" and "rx (port s) = Some 0xff # Some 0xff # rest"
  shows "sync_state (event_handler prog s) = SYNC_NONE
     \<and> loop prog 3 (s\<lparr>port := (port s)\<lparr>rx := Some 0xff # Some 0xff # rx (port s)\<rparr>\<rparr>)
         = event_handler prog s
     \<and> sync_state (loop prog 1 (s\<lparr>port := (port s)\<lparr>rx := Some 0xff # Some 0xff # rx (port s)\<rparr>\<rparr>))
         = SYNC_NONE
     \<and> sync_state (loop prog 2 (s\<lparr>port := (port s)\<lparr>rx := Some 0xff # Some 0xff # rx (port s)\<rparr>\<rparr>))
         = SYNC_NONE"
proof -
  let ?s2 = "s\<lparr>port := (port s)\<lparr>rx := Some 0xff # Some 0xff # rx (port s)\<rparr>\<rparr>"
  have s2: "sync_state ?s2 \<noteq> SYNC_NONE"
    "rx (port ?s2) = Some 0xff # Some 0xff # Some 0xff # Some 0xff # rest"
    using assms by simp_all
  note once = resync_once [OF assms, of prog]
  note first = resync_once [OF s2, of prog]
  let ?t1 = "event_handler prog ?s2"
  have t1: "sync_state ?t1 = SYNC_NONE" "rx (port ?t1) = Some 0xff # Some 0xff # rest"
    unfolding first by simp_all
  have e2: "event_handler prog ?t1 = ?t1\<lparr>timeout := False, port := (port ?t1)\<lparr>rx := Some 0xff # rest\<rparr>\<rparr>"
    by (rule event_handler_unsynced [OF t1]) simp_all
  let ?t2 = "event_handler prog ?t1"
  have t2: "sync_state ?t2 = SYNC_NONE" "rx (port ?t2) = Some 0xff # rest"
    unfolding e2 using t1 by simp_all
  have e3: "event_handler prog ?t2 = ?t2\<lparr>timeout := False, port := (port ?t2)\<lparr>rx := rest\<rparr>\<rparr>"
    by (rule event_handler_unsynced [OF t2]) simp_all
  have "event_handler prog ?t2 = event_handler prog s"
    unfolding e3 unfolding e2 unfolding first once by simp
  moreover have "sync_state (event_handler prog s) = SYNC_NONE" unfolding once by simp
  ultimately show ?thesis using t1(1) t2(1) by (simp add: eval_nat_numeral)
qed

theorem resync_idempotent_C9_witness:
  "sync_state (synced [Some 0xff, Some 0xff]) = SYNC_OK
   \<and> sync_state (event_handler sketch (synced [Some 0xff, Some 0xff])) = SYNC_NONE
   \<and> loop sketch 3 (synced [Some 0xff, Some 0xff, Some 0xff, Some 0xff])
       = event_handler sketch (synced [Some 0xff, Some 0xff])
   \<and> tx (port (loop sketch 3 (synced [Some 0xff, Some 0xff, Some 0xff, Some 0xff])))
       = replicate 34 0xff @ [0x55] @ replicate 34 0xff"
proof -
  let ?s = "synced [Some 0xff, Some 0xff]"
  have h1: "sync_state ?s \<noteq> SYNC_NONE" by (simp add: synced_eq SYNC_OK_def SYNC_NONE_def)
  have h2: "rx (port ?s) = Some 0xff # Some 0xff # []" by (simp add: synced_eq)
  have tw: "?s\<lparr>port := (port ?s)\<lparr>rx := Some 0xff # Some 0xff # rx (port ?s)\<rparr>\<rparr>
      = synced [Some 0xff, Some 0xff, Some 0xff, Some 0xff]"
    by (simp add: synced_eq)
  have tx: "tx (port (event_handler sketch ?s)) = replicate 34 0xff @ [0x55] @ replicate 34 0xff"
    unfolding resync_once [OF h1 h2] by (simp add: synced_eq)
  from resync_idempotent_C9 [OF h1 h2, of sketch] tx show ?thesis
    unfolding tw by (simp add: synced_eq)
qed

text \<open>
  Claim C2, amended in the value of the byte. In a synced state, with both header bytes of a read
  request received, when no callback invoked for the request returns true: every occupied slot
  has been invoked, and \<^verbatim>\<open>event_handler\<close> writes exactly one byte, \<open>NAK\<close>, whose value is 15
  (\<open>0x0F\<close>), and no payload byte.
\<close>

theorem unclaimed_read_nak_C2:
  assumes "sync_state s \<noteq> SYNC_NONE" and "rx (port s) = Some b1 # Some b2 # rest"
    and "is_read (decode_op b1)"
    and "\<forall>c\<in>set (new_calls s (event_handler prog s)). \<not> handled c"
  shows "tx (port (event_handler prog s)) = tx (port s) @ [NAK] \<and> NAK = 0x0F
     \<and> rx (port (event_handler prog s)) = rest
     \<and> sync_state (event_handler prog s) = sync_state s
     \<and> map slot (new_calls s (event_handler prog s)) = occupied s"
  using unclaimed_read_trace [where prog = prog, OF assms] by (simp add: NAK_def)

theorem unclaimed_read_nak_C2_witness:
  "sync_state (synced [Some 0x00, Some 0x01]) \<noteq> SYNC_NONE
   \<and> is_read (decode_op 0x00)
   \<and> new_calls (synced [Some 0x00, Some 0x01])
         (event_handler sketch (synced [Some 0x00, Some 0x01])) = [Call 0 1 ROP_READ_8 1 False]
   \<and> tx (port (event_handler sketch (synced [Some 0x00, Some 0x01])))
       = replicate 34 0xff @ [0x55, 0x0F]
   \<and> rx (port (event_handler sketch (synced [Some 0x00, Some 0x01]))) = []"
proof -
  let ?s = "synced [Some 0x00, Some 0x01]"
  have h1: "sync_state ?s \<noteq> SYNC_NONE" by (simp add: synced_eq SYNC_OK_def SYNC_NONE_def)
  have h2: "rx (port ?s) = Some 0x00 # Some 0x01 # []" by (simp add: synced_eq)
  have op: "decode_op 0x00 = ROP_READ_8" by (simp add: decode_op_def rop_defs)
  have h3: "is_read (decode_op 0x00)" unfolding op by (simp add: is_read_def)
  have nc: "new_calls ?s (event_handler sketch ?s) = [Call 0 1 ROP_READ_8 1 False]"
    by (simp add: new_calls_def synced_eq run_defs sketch_def register_callback_def)
  then have h4: "\<forall>c\<in>set (new_calls ?s (event_handler sketch ?s)). \<not> handled c" by simp
  from unclaimed_read_nak_C2 [where prog = sketch, OF h1 h2 h3 h4] h1 h3 nc show ?thesis
    by (simp add: synced_eq)
qed

theorem nak_value_C2_counterexample:
  "tx (port (synced [Some 0x00, Some 0x01])) = replicate 34 0xff @ [0x55]
   \<and> tx (port (event_handler sketch (synced [Some 0x00, Some 0x01])))
       = replicate 34 0xff @ [0x55] @ [0x0F]
   \<and> tx (port (event_handler sketch (synced [Some 0x00, Some 0x01])))
       \<noteq> replicate 34 0xff @ [0x55] @ [0x15]"
  by (simp add: synced_eq run_defs sketch_def register_callback_def)

text \<open>
  Claim C6, amended in the order. For every registry and every dispatch by
  \<^verbatim>\<open>callbacks_call_one\<close>: the callbacks invoked are those of an initial stretch of the occupied
  slots in slot order, each passed the operation and address of the dispatch. When the result is
  true, the last callback invoked returned true and all before it returned false, so nothing
  after the first claimant runs; when the result is false, every occupied slot was invoked and
  every callback returned false. When the slots hold the callbacks \<open>hs\<close> one after the other,
  followed by empty slots, which is what registrations alone produce (lemma
  \<open>registered_in_order\<close>), the callbacks invoked are an initial stretch of \<open>hs\<close>: slot order is
  then registration order.
\<close>

theorem call_one_C6:
  assumes "callbacks_call_one prog op a s = (r, s')"
  shows "calls s' = calls s @ new_calls s s'
     \<and> map slot (new_calls s s') = take (length (new_calls s s')) (occupied s)
     \<and> (\<forall>c\<in>set (new_calls s s'). callee c = callbacks s ! slot c \<and> passed_operation c = op \<and>
          passed_address c = a)
     \<and> map handled (new_calls s s') =
          (if r then replicate (length (new_calls s s') - 1) False @ [True]
           else replicate (length (occupied s)) False)
     \<and> (\<forall>hs. callbacks s = hs @ replicate (MAX_REG_CALLBACKS - length hs) NULL \<and>
            NULL \<notin> set hs \<and> length hs \<le> MAX_REG_CALLBACKS \<longrightarrow>
          map callee (new_calls s s') = take (length (new_calls s s')) hs)"
proof -
  from assms have "call_one_loop prog op a [0..<MAX_REG_CALLBACKS] s = (r, s')"
    by (simp add: callbacks_call_one_def)
  from call_one_loop_calls [OF this] obtain new where new:
    "calls s' = calls s @ new"
    "map slot new = take (length new) (filter (\<lambda>i. callbacks s ! i \<noteq> NULL) [0..<MAX_REG_CALLBACKS])"
    "\<forall>c\<in>set new. callee c = callbacks s ! slot c \<and> passed_operation c = op \<and> passed_address c = a"
    "map handled new =
       (if r then replicate (length new - 1) False @ [True]
        else replicate (length (filter (\<lambda>i. callbacks s ! i \<noteq> NULL) [0..<MAX_REG_CALLBACKS])) False)"
    by blast
  from new(1) have nc: "new_calls s s' = new" by (simp add: new_calls_def)
  from new(2) have sl: "map slot new = take (length new) (occupied s)" by (simp add: occupied_def)
  from new(3) have ce: "\<forall>c\<in>set new. callee c = callbacks s ! slot c" by simp
  have "map callee new = take (length new) hs"
    if "callbacks s = hs @ replicate (MAX_REG_CALLBACKS - length hs) NULL"
      "NULL \<notin> set hs" "length hs \<le> MAX_REG_CALLBACKS" for hs
    by (rule callee_in_order [OF ce sl that])
  with new sl show ?thesis unfolding nc by (simp add: occupied_def)
qed

theorem call_one_C6_witness:
  "fst (callbacks_call_one sketch ROP_READ_32 1 (synced []))
   \<and> map slot (new_calls (synced []) (snd (callbacks_call_one sketch ROP_READ_32 1 (synced []))))
       = take (length (new_calls (synced []) (snd (callbacks_call_one sketch ROP_READ_32 1 (synced [])))))
           (occupied (synced []))
   \<and> map handled (new_calls (synced []) (snd (callbacks_call_one sketch ROP_READ_32 1 (synced []))))
       = [True]
   \<and> map callee (new_calls (synced []) (snd (callbacks_call_one sketch ROP_READ_32 1 (synced []))))
       = [1]"
proof -
  let ?r = "callbacks_call_one sketch ROP_READ_32 1 (synced [])"
  have r: "fst ?r"
    by (simp add: synced_eq callbacks_call_one_def upt_16 invoke_def sketch_def
        register_callback_def rop_defs NULL_def)
  have n: "length (calls (snd ?r)) = 1"
    by (simp add: synced_eq callbacks_call_one_def upt_16 invoke_def sketch_def
        register_callback_def rop_defs NULL_def)
  have c: "calls (synced []) = []" by (simp add: synced_eq)
  have e: "?r = (fst ?r, snd ?r)" by simp
  have hs: "callbacks (synced []) = [1] @ replicate (MAX_REG_CALLBACKS - length [1 :: nat]) NULL
      \<and> NULL \<notin> set [1 :: nat] \<and> length [1 :: nat] \<le> MAX_REG_CALLBACKS"
    by (simp add: synced_eq MAX_REG_CALLBACKS_def NULL_def)
  from call_one_C6 [OF e] have
    "map slot (new_calls (synced []) (snd ?r)) =
       take (length (new_calls (synced []) (snd ?r))) (occupied (synced []))"
    "map handled (new_calls (synced []) (snd ?r)) =
       (if fst ?r then replicate (length (new_calls (synced []) (snd ?r)) - 1) False @ [True]
        else replicate (length (occupied (synced []))) False)"
    "\<forall>hs. callbacks (synced []) = hs @ replicate (MAX_REG_CALLBACKS - length hs) NULL \<and>
          NULL \<notin> set hs \<and> length hs \<le> MAX_REG_CALLBACKS \<longrightarrow>
        map callee (new_calls (synced []) (snd ?r)) =
          take (length (new_calls (synced []) (snd ?r))) hs"
    by blast+
  moreover from this(3) hs have
    "map callee (new_calls (synced []) (snd ?r)) =
       take (length (new_calls (synced []) (snd ?r))) [1]"
    by blast
  moreover have "length (new_calls (synced []) (snd ?r)) = 1"
    using n c by (simp add: new_calls_def)
  ultimately show ?thesis using r by simp
qed

text \<open>
  In the second application callback 6 was registered before callback 7, and 7 sits in the slot
  freed by 5, before 6: a read dispatch invokes 7 first, not 6.
\<close>

theorem slot_order_C6_counterexample:
  "callbacks (reregistered []) = 7 # 6 # replicate 14 NULL
   \<and> map callee (calls (snd (callbacks_call_one decline ROP_READ_8 0 (reregistered [])))) = [7, 6]
   \<and> map callee (calls (snd (callbacks_call_one decline ROP_READ_8 0 (reregistered [])))) \<noteq> [6, 7]"
  by (simp add: reregistered_eq callbacks_call_one_def upt_16 invoke_def decline_def NULL_def)

text \<open>
  Claim C7, amended in the order. In a synced state, for a write request (8, 16, 32 bit, or
  multibyte with a length of at most \<^verbatim>\<open>MAX_MB_SIZE\<close>) whose header, length byte and payload all
  arrive: every occupied slot is invoked
  exactly once, in slot order, with the operation of the request and the low byte of its
  address; what the callbacks return plays no part; exactly the byte \<open>ACK = 6\<close> is written, the
  request's bytes and no more are consumed, and the sync state stays as it is. When the slots
  hold the callbacks \<open>hs\<close> one after the other, followed by empty slots, which is what
  registrations alone produce (lemma \<open>registered_in_order\<close>), the callbacks invoked are \<open>hs\<close>
  in that order: slot order is then registration order. A multibyte write longer than
  \<^verbatim>\<open>MAX_MB_SIZE\<close> stores past the buffer and has undefined behaviour (claim C1); nothing is
  stated of it.
\<close>

theorem write_broadcast_C7:
  assumes "sync_state s \<noteq> SYNC_NONE"
    and "rx (port s) = Some b1 # Some b2 # map Some body @ rest"
    and "write_body (decode_op b1) body"
  shows "calls (event_handler prog s) = calls s @ new_calls s (event_handler prog s)
     \<and> map slot (new_calls s (event_handler prog s)) = occupied s
     \<and> distinct (occupied s)
     \<and> (\<forall>c\<in>set (new_calls s (event_handler prog s)).
          callee c = callbacks s ! slot c \<and> passed_operation c = decode_op b1 \<and>
          passed_address c = b2)
     \<and> tx (port (event_handler prog s)) = tx (port s) @ [ACK] \<and> ACK = 0x06
     \<and> rx (port (event_handler prog s)) = rest
     \<and> sync_state (event_handler prog s) = sync_state s
     \<and> (\<forall>hs. callbacks s = hs @ replicate (MAX_REG_CALLBACKS - length hs) NULL \<and>
            NULL \<notin> set hs \<and> length hs \<le> MAX_REG_CALLBACKS \<longrightarrow>
          map callee (new_calls s (event_handler prog s)) = hs)"
proof -
  let ?new = "new_calls s (event_handler prog s)"
  note res = write_request_result [OF assms, of prog]
  from res have sl: "map slot ?new = take (length (occupied s)) (occupied s)"
    and ce: "\<forall>c\<in>set ?new. callee c = callbacks s ! slot c"
    by simp_all
  have "map callee ?new = hs"
    if hs: "callbacks s = hs @ replicate (MAX_REG_CALLBACKS - length hs) NULL"
      "NULL \<notin> set hs" "length hs \<le> MAX_REG_CALLBACKS" for hs
  proof -
    from occupied_in_order(1) [OF hs] have "length (occupied s) = length hs" by simp
    with callee_in_order [OF ce sl hs] show ?thesis by simp
  qed
  with res distinct_occupied [of s] show ?thesis by (simp add: ACK_def)
qed

theorem write_broadcast_C7_witness:
  "sync_state (synced (map Some [0x10, 0x01, 0x01])) \<noteq> SYNC_NONE
   \<and> write_body (decode_op 0x10) [0x01]
   \<and> map slot (new_calls (synced (map Some [0x10, 0x01, 0x01]))
         (event_handler sketch (synced (map Some [0x10, 0x01, 0x01])))) = [0]
   \<and> tx (port (event_handler sketch (synced (map Some [0x10, 0x01, 0x01]))))
       = replicate 34 0xff @ [0x55, 0x06]
   \<and> rx (port (event_handler sketch (synced (map Some [0x10, 0x01, 0x01])))) = []
   \<and> map callee (new_calls (synced (map Some [0x10, 0x01, 0x01]))
         (event_handler sketch (synced (map Some [0x10, 0x01, 0x01])))) = [1]"
proof -
  let ?s = "synced (map Some [0x10, 0x01, 0x01])"
  have h1: "sync_state ?s \<noteq> SYNC_NONE" by (simp add: synced_eq SYNC_OK_def SYNC_NONE_def)
  have h2: "rx (port ?s) = Some 0x10 # Some 0x01 # map Some [0x01] @ []" by (simp add: synced_eq)
  have h3: "write_body (decode_op 0x10) [0x01]"
    by (simp add: write_body_def decode_op_def rop_defs)
  have oc: "occupied ?s = [0]" by (simp add: occupied_def synced_eq upt_16 NULL_def)
  have hs: "callbacks ?s = [1] @ replicate (MAX_REG_CALLBACKS - length [1 :: nat]) NULL
      \<and> NULL \<notin> set [1 :: nat] \<and> length [1 :: nat] \<le> MAX_REG_CALLBACKS"
    by (simp add: synced_eq MAX_REG_CALLBACKS_def NULL_def)
  note res = write_broadcast_C7 [OF h1 h2 h3, of sketch]
  from res have "\<forall>hs. callbacks ?s = hs @ replicate (MAX_REG_CALLBACKS - length hs) NULL \<and>
          NULL \<notin> set hs \<and> length hs \<le> MAX_REG_CALLBACKS \<longrightarrow>
        map callee (new_calls ?s (event_handler sketch ?s)) = hs"
    by blast
  with hs have "map callee (new_calls ?s (event_handler sketch ?s)) = [1]" by blast
  moreover from res have "map slot (new_calls ?s (event_handler sketch ?s)) = occupied ?s"
    "tx (port (event_handler sketch ?s)) = tx (port ?s) @ [ACK]"
    "rx (port (event_handler sketch ?s)) = []"
    by blast+
  ultimately show ?thesis using h1 h3 oc by (simp add: synced_eq ACK_def)
qed

text \<open>The same registry, synced, receives a write-8 request: callback 7 is invoked before 6.\<close>

theorem slot_order_C7_counterexample:
  "map callee (calls (event_handler decline (event_handler decline
      (reregistered (map Some [0xAA, 0x10, 0x01, 0x01]))))) = [7, 6]
   \<and> map callee (calls (event_handler decline (event_handler decline
      (reregistered (map Some [0xAA, 0x10, 0x01, 0x01]))))) \<noteq> [6, 7]
   \<and> tx (port (event_handler decline (event_handler decline
      (reregistered (map Some [0xAA, 0x10, 0x01, 0x01])))))
       = replicate 34 0xff @ [0x55, ACK]"
  by (simp add: reregistered_eq run_defs read_request_numeral decline_def)

text \<open>
  Claim C1. The source stores the length byte of a multibyte write and that many payload bytes
  without comparing the length with \<^verbatim>\<open>MAX_MB_SIZE\<close>. The sketch, synced and with no overrun so
  far, receives the request \<open>0x1C 0x01\<close> with length byte 30 and 30 payload bytes:
  \<^verbatim>\<open>multibyte.size\<close> is set to 30, and the store of the last payload byte, past the end of
  \<open>regdata2\<close>, is reached. The length is neither rejected nor clamped. The same holds of every
  oversized multibyte write in a synced state (lemma \<open>overrun_iff_oversized\<close>).
\<close>

theorem overlong_multibyte_write_C1:
  "\<not> overrun (synced (map Some ([0x1C, 0x01, 30] @ thirty_bytes)))
   \<and> multibyte_size (regdata2 (event_handler sketch (synced (map Some ([0x1C, 0x01, 30] @ thirty_bytes))))) = 30
   \<and> MAX_MB_SIZE < 30
   \<and> overrun (event_handler sketch (synced (map Some ([0x1C, 0x01, 30] @ thirty_bytes))))"
  by (simp add: synced_eq run_defs read_request_numeral sketch_def register_callback_def power_on_def
     thirty_bytes_def)

text \<open>
  Claim C3. The header \<open>0x11 0x01\<close> is a write-8 to register 257. The dispatchers take the
  address as \<^verbatim>\<open>uint8_t\<close>: the callback is passed address 1, and the sketch, whose LED was on,
  switches it off as it does for register 1.
\<close>

theorem address_truncated_C3:
  "calls (event_handler sketch (synced (map Some [0x11, 0x01, 0x00]))) = [Call 0 1 ROP_WRITE_8 1 True]
   \<and> decode_addr 0x11 0x01 = 257
   \<and> led (world (synced (map Some [0x11, 0x01, 0x00]))) = 1
   \<and> led (world (event_handler sketch (synced (map Some [0x11, 0x01, 0x00])))) = 0"
  by (simp add: synced_eq run_defs read_request_numeral sketch_def register_callback_def power_on_def)

end
